theory Spec2Isabelle
  imports Main "HOL-Library.Word"
begin

unbundle bit_operations_syntax

section \<open>The Wii remote driver (wii-remote-driver.c) as a state-passing model\<close>

text \<open>
  The driver keeps all of its state in file-scope variables. The model collects them in
  one record that every entry point takes and returns. The mutex around the buffer is a
  sequential no-op: each entry point is one atomic step. What the kernel prints with
  \<^verbatim>\<open>printk\<close> is kept as a list of lines, and what is handed to
  \<^verbatim>\<open>hid_hw_raw_request\<close> as a list of outbound requests.
\<close>

subsection \<open>Constants\<close>

type_synonym u8 = "8 word"

definition CIRC_BUFFER_SIZE :: nat where
  "CIRC_BUFFER_SIZE = 1024"

definition DRIVER_NAME :: string where
  "DRIVER_NAME = ''wii_remote_driver''"

text \<open>\<^verbatim>\<open>_IO('W', 1)\<close> in the generic ioctl encoding: type \<open>0x57\<close> in bits 8..15, number 1.\<close>

definition WIIMOTE_IOCTL_REQUEST_STATUS :: "32 word" where
  "WIIMOTE_IOCTL_REQUEST_STATUS = 0x5701"

text \<open>Linux error numbers used by the driver.\<close>

definition EFAULT :: int where "EFAULT = 14"
definition ENODEV :: int where "ENODEV = 19"
definition ENOTTY :: int where "ENOTTY = 25"

subsection \<open>Driver state\<close>

datatype loglevel = KERN_INFO | KERN_WARNING | KERN_ERR

type_synonym hid_device = nat

datatype hid_report_type = HID_OUTPUT_REPORT
datatype hid_class_request = HID_REQ_SET_REPORT

record raw_request =
  req_dev :: hid_device
  req_reportnum :: u8
  req_buf :: "u8 list"
  req_rtype :: hid_report_type
  req_reqtype :: hid_class_request

text \<open>
  \<open>head\<close> and \<open>tail\<close> are C \<^verbatim>\<open>int\<close>s that only ever hold \<open>0\<close> or a value reduced
  modulo \<open>CIRC_BUFFER_SIZE\<close>; they are natural numbers here. \<open>wii_hid_dev\<close> is a
  pointer, \<open>None\<close> for \<^verbatim>\<open>NULL\<close>. \<open>wii_last_battery\<close> is \<open>-1\<close> while unknown.
\<close>

record driver =
  circ_buffer :: "char list"
  head :: nat
  tail :: nat
  wii_hid_dev :: "hid_device option"
  wii_connected :: int
  wii_last_battery :: int
  klog :: "(loglevel \<times> string) list"
  hid_out :: "raw_request list"

definition init_driver :: driver where
  "init_driver =
     \<lparr>circ_buffer = replicate CIRC_BUFFER_SIZE (CHR 0x00), head = 0, tail = 0,
      wii_hid_dev = None, wii_connected = 0, wii_last_battery = - 1,
      klog = [], hid_out = []\<rparr>"

definition printk :: "loglevel \<Rightarrow> string \<Rightarrow> driver \<Rightarrow> driver" where
  "printk lvl msg s = s\<lparr>klog := klog s @ [(lvl, msg)]\<rparr>"

subsection \<open>Formatting (\<^verbatim>\<open>snprintf\<close> and its conversions)\<close>

definition digit_char :: "nat \<Rightarrow> char" where
  "digit_char d = char_of (48 + d)"

fun show_nat :: "nat \<Rightarrow> string" where
  "show_nat n = (if n < 10 then [digit_char n] else show_nat (n div 10) @ [digit_char (n mod 10)])"

declare show_nat.simps [simp del]

text \<open>\<^verbatim>\<open>%u\<close> prints an unsigned decimal, \<^verbatim>\<open>%d\<close> a signed one, \<^verbatim>\<open>%02x\<close> two
  lower-case hexadecimal digits.\<close>

definition fmt_u :: "nat \<Rightarrow> string" where
  "fmt_u n = show_nat n"

definition fmt_d :: "int \<Rightarrow> string" where
  "fmt_d i = (if i < 0 then CHR ''-'' # show_nat (nat (- i)) else show_nat (nat i))"

definition hex_char :: "nat \<Rightarrow> char" where
  "hex_char d = (if d < 10 then char_of (48 + d) else char_of (87 + d))"

definition fmt_02x :: "u8 \<Rightarrow> string" where
  "fmt_02x b = [hex_char (unat b div 16), hex_char (unat b mod 16)]"

text \<open>
  \<open>snprintf n str\<close> is a call of \<^verbatim>\<open>snprintf(dst, n, ...)\<close> whose expanded
  format is \<open>str\<close>: it stores at most \<open>n - 1\<close> characters before the terminating
  NUL and returns the length of the whole expansion.
\<close>

definition snprintf :: "nat \<Rightarrow> string \<Rightarrow> string \<times> nat" where
  "snprintf n str = (take (n - 1) str, length str)"

subsection \<open>The circular buffer\<close>

definition buffer_full_msg :: string where
  "buffer_full_msg = DRIVER_NAME @ '': circular buffer full, dropping data\<newline>''"

text \<open>
  The loop of \<open>circ_buffer_write\<close>: the second argument is the rest of the data still to
  copy, \<open>i\<close> the loop index. The loop returns the state and the value of \<open>i\<close> when it
  ends, by running out of data or by the \<^verbatim>\<open>break\<close>.
\<close>

fun circ_buffer_write_loop :: "driver \<Rightarrow> string \<Rightarrow> nat \<Rightarrow> driver \<times> nat" where
  "circ_buffer_write_loop s [] i = (s, i)"
| "circ_buffer_write_loop s (c # cs) i =
     (let next = (head s + 1) mod CIRC_BUFFER_SIZE in
      if next = tail s then (printk KERN_WARNING buffer_full_msg s, i)
      else circ_buffer_write_loop
             (s\<lparr>circ_buffer := (circ_buffer s)[head s := c], head := next\<rparr>) cs (Suc i))"

text \<open>The function returns \<^verbatim>\<open>void\<close>: the loop index is dropped.\<close>

definition circ_buffer_write :: "string \<Rightarrow> driver \<Rightarrow> driver" where
  "circ_buffer_write data s = fst (circ_buffer_write_loop s data 0)"

subsection \<open>Button reports\<close>

text \<open>
  \<open>mapping_output\<close> is a 256-byte array and \<open>len\<close> the running length. The pair
  \<open>(out, len)\<close> holds the characters stored before the NUL and \<open>len\<close>; \<open>append_fmt\<close>
  is one \<^verbatim>\<open>len += snprintf(mapping_output + len, sizeof(mapping_output) - len, ...)\<close>.
\<close>

definition append_fmt :: "string \<Rightarrow> string \<times> nat \<Rightarrow> string \<times> nat" where
  "append_fmt str ol =
     (case ol of (out, len) \<Rightarrow>
        (take len out @ fst (snprintf (256 - len) str), len + snd (snprintf (256 - len) str)))"

definition append_if :: "bool \<Rightarrow> string \<Rightarrow> string \<times> nat \<Rightarrow> string \<times> nat" where
  "append_if b str ol = (if b then append_fmt str ol else ol)"

definition too_short_msg :: string where
  "too_short_msg = DRIVER_NAME @ '': Report too short for mapping\<newline>''"

definition mapping_text :: "u8 \<Rightarrow> u8 \<Rightarrow> u8 \<Rightarrow> string \<times> nat" where
  "mapping_text report_id btn_byte1 btn_byte2 =
     (let ol = append_fmt (''Report: ID='' @ fmt_u (unat report_id) @ '', '') ([], 0);
          ol = append_if (btn_byte1 AND 0x01 \<noteq> 0) ''Dpad_Right '' ol;
          ol = append_if (btn_byte1 AND 0x02 \<noteq> 0) ''Dpad_Left '' ol;
          ol = append_if (btn_byte1 AND 0x04 \<noteq> 0) ''Dpad_Down '' ol;
          ol = append_if (btn_byte1 AND 0x08 \<noteq> 0) ''Dpad_Up '' ol;
          ol = append_if (btn_byte1 AND 0x10 \<noteq> 0) ''Plus '' ol;
          ol = append_if (btn_byte1 AND 0x20 \<noteq> 0) ''Minus '' ol;
          ol = append_if (btn_byte1 AND 0x40 \<noteq> 0) ''Home '' ol;
          ol = append_if (btn_byte2 AND 0x01 \<noteq> 0) ''A '' ol;
          ol = append_if (btn_byte2 AND 0x02 \<noteq> 0) ''B '' ol;
          ol = append_if (btn_byte2 AND 0x04 \<noteq> 0) ''1 '' ol;
          ol = append_if (btn_byte2 AND 0x08 \<noteq> 0) ''2 '' ol;
          ol = (if snd ol = 0 then snprintf 256 ''No buttons pressed'' else ol);
          ol = (if snd ol < 256 - 1 then (take (snd ol) (fst ol) @ ''\<newline>'', snd ol + 1) else ol)
      in ol)"

definition perform_input_mapping :: "u8 list \<Rightarrow> driver \<Rightarrow> driver" where
  "perform_input_mapping data s =
     (if length data < 3 then printk KERN_WARNING too_short_msg s
      else (case mapping_text (data ! 0) (data ! 1) (data ! 2) of
              (out, len) \<Rightarrow> circ_buffer_write (take len out) s))"

subsection \<open>The character device\<close>

text \<open>
  \<open>device_read\<close> copies to user space one byte at a time. \<open>uok k\<close> tells whether
  \<^verbatim>\<open>copy_to_user(buf + k, ..., 1)\<close> succeeds (returns 0); \<open>ubuf\<close> is what has been
  stored at \<open>buf\<close> so far, so that \<open>bytes_copied\<close> is its length. The result is the
  state, the bytes stored in the user's buffer and the return value.
\<close>

function device_read_loop ::
  "(nat \<Rightarrow> bool) \<Rightarrow> nat \<Rightarrow> driver \<Rightarrow> string \<Rightarrow> driver \<times> string \<times> int" where
  "device_read_loop uok count s ubuf =
     (if length ubuf < count \<and> tail s \<noteq> head s then
        (if \<not> uok (length ubuf) then (s, ubuf, - EFAULT)
         else device_read_loop uok count
                (s\<lparr>tail := (tail s + 1) mod CIRC_BUFFER_SIZE\<rparr>)
                (ubuf @ [circ_buffer s ! tail s]))
      else (s, ubuf, int (length ubuf)))"
  by pat_completeness auto
termination
  by (relation "measure (\<lambda>(uok, count, s, ubuf). count - length ubuf)") auto

declare device_read_loop.simps [simp del]

definition device_read :: "(nat \<Rightarrow> bool) \<Rightarrow> nat \<Rightarrow> driver \<Rightarrow> driver \<times> string \<times> int" where
  "device_read uok count s = device_read_loop uok count s []"

definition status_request :: "u8 list" where
  "status_request = [0x15, 0x00]"

text \<open>
  \<open>hw_ret\<close> is what \<^verbatim>\<open>hid_hw_raw_request\<close> returns, should it be called: the
  transport decides it.
\<close>

definition device_ioctl :: "32 word \<Rightarrow> int \<Rightarrow> driver \<Rightarrow> driver \<times> int" where
  "device_ioctl cmd hw_ret s =
     (if cmd = WIIMOTE_IOCTL_REQUEST_STATUS then
        (case wii_hid_dev s of
           Some hdev \<Rightarrow>
             (let s = printk KERN_INFO ''Sending battery status request (output report 0x15)\<newline>'' s;
                  s = s\<lparr>hid_out := hid_out s @
                         [\<lparr>req_dev = hdev, req_reportnum = status_request ! 0,
                           req_buf = status_request, req_rtype = HID_OUTPUT_REPORT,
                           req_reqtype = HID_REQ_SET_REPORT\<rparr>]\<rparr>;
                  ret = hw_ret;
                  s = printk KERN_INFO (''Battery status request returned: '' @ fmt_d ret @ ''\<newline>'') s;
                  s = (if ret < 0
                       then printk KERN_ERR
                              (DRIVER_NAME @ '': failed to send status request, error '' @ fmt_d ret @ ''\<newline>'') s
                       else s)
              in (s, ret))
         | None \<Rightarrow>
             (printk KERN_ERR (DRIVER_NAME @ '': HID device not available for status request\<newline>'') s,
              - ENODEV))
      else (s, - ENOTTY))"

subsection \<open>The HID callbacks\<close>

definition raw_event_msg :: "u8 list \<Rightarrow> string" where
  "raw_event_msg data =
     ''wii_raw_event: received report: '' @ concat (map (\<lambda>b. fmt_02x b @ '' '') data) @ ''\<newline>''"

text \<open>The report is the list \<open>data\<close>; \<open>size\<close> is its length.\<close>

definition wii_raw_event :: "u8 list \<Rightarrow> driver \<Rightarrow> driver \<times> int" where
  "wii_raw_event data s =
     (let s = printk KERN_INFO (raw_event_msg data) s in
      if length data > 0 \<and> data ! 0 = 0x20 then
        (let s = printk KERN_INFO ''Battery status report detected.\<newline>'' s in
         if length data \<ge> 2 then
           (case snprintf 64 (''Battery: '' @ fmt_d (uint (data ! 1)) @ ''\<newline>'') of
              (battery_output, len) \<Rightarrow>
                (circ_buffer_write (take len battery_output)
                   (s\<lparr>wii_last_battery := uint (data ! 1)\<rparr>), 0))
         else (s, 0))
      else (perform_input_mapping data s, 0))"

text \<open>
  \<open>parse_ret\<close> and \<open>start_ret\<close> are the results of \<^verbatim>\<open>hid_parse\<close> and
  \<^verbatim>\<open>hid_hw_start\<close>.
\<close>

definition wii_probe :: "hid_device \<Rightarrow> int \<Rightarrow> int \<Rightarrow> driver \<Rightarrow> driver \<times> int" where
  "wii_probe hdev parse_ret start_ret s =
     (if parse_ret \<noteq> 0 then (s, parse_ret)
      else if start_ret \<noteq> 0 then (s, start_ret)
      else (printk KERN_INFO (DRIVER_NAME @ '': Wii remote connected\<newline>'')
              (s\<lparr>wii_hid_dev := Some hdev, wii_connected := 1\<rparr>), 0))"

definition wii_remove :: "hid_device \<Rightarrow> driver \<Rightarrow> driver" where
  "wii_remove hdev s =
     printk KERN_INFO (DRIVER_NAME @ '': Wii remote disconnected\<newline>'')
       (s\<lparr>wii_hid_dev := None, wii_connected := 0\<rparr>)"

subsection \<open>Histories of calls\<close>

text \<open>
  The kernel calls the driver's entry points in some order. A history is a list of
  calls, each with what its environment answers; \<open>run\<close> applies them in turn.
\<close>

datatype call =
    Probe hid_device int int
  | Remove hid_device
  | RawEvent "u8 list"
  | Read "nat \<Rightarrow> bool" nat
  | Ioctl "32 word" int

fun step :: "call \<Rightarrow> driver \<Rightarrow> driver" where
  "step (Probe hdev parse_ret start_ret) s = fst (wii_probe hdev parse_ret start_ret s)"
| "step (Remove hdev) s = wii_remove hdev s"
| "step (RawEvent data) s = fst (wii_raw_event data s)"
| "step (Read uok count) s = fst (device_read uok count s)"
| "step (Ioctl cmd hw_ret) s = fst (device_ioctl cmd hw_ret s)"

definition run :: "call list \<Rightarrow> driver \<Rightarrow> driver" where
  "run cs s = fold step cs s"

subsection \<open>What the buffer holds\<close>

text \<open>
  The bytes written and not yet read lie from \<open>tail\<close> up to \<open>head\<close>, modulo the size
  of the array.
\<close>

definition used :: "driver \<Rightarrow> nat" where
  "used s = (head s + CIRC_BUFFER_SIZE - tail s) mod CIRC_BUFFER_SIZE"

definition unread :: "driver \<Rightarrow> string" where
  "unread s = map (\<lambda>k. circ_buffer s ! ((tail s + k) mod CIRC_BUFFER_SIZE)) [0..<used s]"

definition free :: "driver \<Rightarrow> nat" where
  "free s = CIRC_BUFFER_SIZE - 1 - used s"

definition wf :: "driver \<Rightarrow> bool" where
  "wf s = (length (circ_buffer s) = CIRC_BUFFER_SIZE \<and> head s < CIRC_BUFFER_SIZE
           \<and> tail s < CIRC_BUFFER_SIZE)"

subsection \<open>The specification's wording, for comparison\<close>

text \<open>
  The entry the specification prescribes for a button report: the header with the report
  id in decimal, then the name of every set bit in the fixed order, each followed by a
  space, then a newline. Bit \<open>k\<close> of the byte selects the \<open>k\<close>-th name.
\<close>

definition byte1_names :: "string list" where
  "byte1_names = [''Dpad_Right'', ''Dpad_Left'', ''Dpad_Down'', ''Dpad_Up'', ''Plus'', ''Minus'', ''Home'']"

definition byte2_names :: "string list" where
  "byte2_names = [''A'', ''B'', ''1'', ''2'']"

definition set_bit_names :: "u8 \<Rightarrow> string list \<Rightarrow> string" where
  "set_bit_names b names =
     concat (map (\<lambda>k. if bit b k then names ! k @ '' '' else []) [0..<length names])"

definition spec_button_entry :: "u8 \<Rightarrow> u8 \<Rightarrow> u8 \<Rightarrow> string" where
  "spec_button_entry report_id b1 b2 =
     ''Report: ID='' @ show_nat (unat report_id) @ '', ''
       @ set_bit_names b1 byte1_names @ set_bit_names b2 byte2_names @ ''\<newline>''"

definition spec_battery_entry :: "u8 \<Rightarrow> string" where
  "spec_battery_entry level = ''Battery: '' @ show_nat (unat level) @ ''\<newline>''"

text \<open>
  The transitions of the connection state machine: a probe that succeeds attaches, a
  remove detaches. A history is detached when it has no transition or when its last
  transition is a detach.
\<close>

fun is_attach :: "call \<Rightarrow> bool" where
  "is_attach (Probe hdev parse_ret start_ret) = (parse_ret = 0 \<and> start_ret = 0)"
| "is_attach c = False"

fun is_detach :: "call \<Rightarrow> bool" where
  "is_detach (Remove hdev) = True"
| "is_detach c = False"

definition detached :: "call list \<Rightarrow> bool" where
  "detached cs =
     (case filter (\<lambda>c. is_attach c \<or> is_detach c) cs of
        [] \<Rightarrow> True
      | t # ts \<Rightarrow> is_detach (last (t # ts)))"

text \<open>Writing the bytes of \<open>xs\<close> with one call of \<open>circ_buffer_write\<close> each.\<close>

definition single_byte_writes :: "string \<Rightarrow> driver \<Rightarrow> driver" where
  "single_byte_writes xs s = fold (\<lambda>c. circ_buffer_write [c]) xs s"

text \<open>The state without the kernel log.\<close>

definition sans_log :: "driver \<Rightarrow> driver" where
  "sans_log s = s\<lparr>klog := []\<rparr>"

section \<open>Arithmetic of the two cursors\<close>

lemma ring_used_cases:
  fixes h t N :: nat
  assumes "h < N" "t < N"
  shows "(h + N - t) mod N = (if t \<le> h then h - t else h + N - t)"
  using assms by (auto simp: mod_if)

lemma ring_full_iff:
  fixes h t N :: nat
  assumes "h < N" "t < N"
  shows "(Suc h mod N = t) = ((h + N - t) mod N = N - 1)"
  using assms by (auto simp: mod_if)

lemma ring_advance:
  fixes h t N :: nat
  assumes "h < N" "t < N" "Suc h mod N \<noteq> t"
  shows "(Suc h mod N + N - t) mod N = Suc ((h + N - t) mod N)"
  using assms by (auto simp: mod_if)

lemma ring_head:
  fixes h t N :: nat
  assumes "h < N" "t < N"
  shows "(t + (h + N - t) mod N) mod N = h"
  using assms by (auto simp: mod_if)

lemma ring_distinct:
  fixes h t N k :: nat
  assumes "h < N" "t < N" "k < (h + N - t) mod N"
  shows "(t + k) mod N \<noteq> h"
proof (cases "t \<le> h")
  case True
  with assms have "k < h - t" by (simp add: ring_used_cases)
  with assms True have "t + k < h" "t + k < N" by linarith+
  then show ?thesis by simp
next
  case False
  with assms have k: "k < h + N - t" by (simp add: ring_used_cases)
  show ?thesis
  proof (cases "t + k < N")
    case True
    with False show ?thesis by simp
  next
    case False
    then have "(t + k) mod N = t + k - N" using k assms by (simp add: mod_if)
    with k False assms show ?thesis by linarith
  qed
qed

lemma ring_tail_advance:
  fixes h t N :: nat
  assumes "h < N" "t < N" "t \<noteq> h"
  shows "(h + N - Suc t mod N) mod N = (h + N - t) mod N - 1"
  using assms by (auto simp: mod_if split: if_splits)

lemma ring_empty_iff:
  fixes h t N :: nat
  assumes "h < N" "t < N"
  shows "(t = h) = ((h + N - t) mod N = 0)"
  using assms by (auto simp: mod_if split: if_splits)

lemma ring_shift:
  fixes t N k :: nat
  assumes "t < N"
  shows "(Suc t mod N + k) mod N = (t + Suc k) mod N"
  by (metis add_Suc_shift mod_add_left_eq)

lemma CIRC_BUFFER_SIZE_pos: "0 < CIRC_BUFFER_SIZE"
  by (simp add: CIRC_BUFFER_SIZE_def)

lemma used_less: "used s < CIRC_BUFFER_SIZE"
  by (simp add: used_def CIRC_BUFFER_SIZE_pos)

lemma length_unread: "length (unread s) = used s"
  by (simp add: unread_def)

lemma used_plus_free: "used s + free s = CIRC_BUFFER_SIZE - 1"
  using used_less [of s] by (simp add: free_def)

lemma full_iff_free: "wf s \<Longrightarrow> (Suc (head s) mod CIRC_BUFFER_SIZE = tail s) = (free s = 0)"
proof -
  assume "wf s"
  then have "(Suc (head s) mod CIRC_BUFFER_SIZE = tail s) = (used s = CIRC_BUFFER_SIZE - 1)"
    unfolding used_def by (intro ring_full_iff) (simp_all add: wf_def)
  moreover have "(used s = CIRC_BUFFER_SIZE - 1) = (free s = 0)"
    using used_less [of s] unfolding free_def by linarith
  ultimately show ?thesis by simp
qed

lemma empty_iff_used: "wf s \<Longrightarrow> (tail s = head s) = (used s = 0)"
  using ring_empty_iff [of "head s" CIRC_BUFFER_SIZE "tail s"]
  by (simp add: wf_def used_def)

lemma write_step:
  fixes c :: char
  assumes "wf s" and "(head s + 1) mod CIRC_BUFFER_SIZE \<noteq> tail s"
  defines "s' \<equiv> s\<lparr>circ_buffer := (circ_buffer s)[head s := c],
                     head := (head s + 1) mod CIRC_BUFFER_SIZE\<rparr>"
  shows "wf s'" and "used s' = Suc (used s)" and "unread s' = unread s @ [c]"
    and "free s' = free s - 1"
proof -
  from assms(1) have len: "length (circ_buffer s) = CIRC_BUFFER_SIZE"
    and h: "head s < CIRC_BUFFER_SIZE" and t: "tail s < CIRC_BUFFER_SIZE"
    by (simp_all add: wf_def)
  show "wf s'"
    using len t by (simp add: wf_def s'_def CIRC_BUFFER_SIZE_pos)
  show u: "used s' = Suc (used s)"
    using ring_advance [OF h t] assms(2) by (simp add: used_def s'_def)
  then show "free s' = free s - 1"
    by (simp add: free_def)
  have old: "circ_buffer s' ! ((tail s + k) mod CIRC_BUFFER_SIZE)
             = circ_buffer s ! ((tail s + k) mod CIRC_BUFFER_SIZE)" if "k < used s" for k
    using ring_distinct [OF h t, of k] that by (simp add: s'_def used_def)
  have new: "circ_buffer s' ! ((tail s + used s) mod CIRC_BUFFER_SIZE) = c"
    using ring_head [OF h t] h len by (simp add: s'_def used_def)
  have "unread s' = map (\<lambda>k. circ_buffer s' ! ((tail s + k) mod CIRC_BUFFER_SIZE)) [0..<Suc (used s)]"
    by (simp add: unread_def u) (simp add: s'_def)
  also have "\<dots> = map (\<lambda>k. circ_buffer s ! ((tail s + k) mod CIRC_BUFFER_SIZE)) [0..<used s] @ [c]"
    using old new by simp
  finally show "unread s' = unread s @ [c]"
    by (simp add: unread_def)
qed

lemma write_loop_spec:
  "wf s \<Longrightarrow>
   wf (fst (circ_buffer_write_loop s data i))
   \<and> tail (fst (circ_buffer_write_loop s data i)) = tail s
   \<and> unread (fst (circ_buffer_write_loop s data i)) = unread s @ take (free s) data
   \<and> snd (circ_buffer_write_loop s data i) = i + min (length data) (free s)
   \<and> klog (fst (circ_buffer_write_loop s data i))
       = klog s @ (if free s < length data then [(KERN_WARNING, buffer_full_msg)] else [])
   \<and> wii_hid_dev (fst (circ_buffer_write_loop s data i)) = wii_hid_dev s
   \<and> wii_connected (fst (circ_buffer_write_loop s data i)) = wii_connected s
   \<and> wii_last_battery (fst (circ_buffer_write_loop s data i)) = wii_last_battery s
   \<and> hid_out (fst (circ_buffer_write_loop s data i)) = hid_out s"
proof (induction data arbitrary: s i)
  case Nil
  then show ?case by simp
next
  case (Cons c cs)
  show ?case
  proof (cases "(head s + 1) mod CIRC_BUFFER_SIZE = tail s")
    case True
    with Cons.prems have "free s = 0" by (simp add: full_iff_free)
    with True Cons.prems show ?thesis by (simp add: printk_def wf_def unread_def used_def)
  next
    case False
    let ?s = "s\<lparr>circ_buffer := (circ_buffer s)[head s := c],
                 head := (head s + 1) mod CIRC_BUFFER_SIZE\<rparr>"
    from False Cons.prems have pos: "free s \<noteq> 0" by (simp add: full_iff_free)
    then obtain m where m: "free s = Suc m" by (cases "free s") auto
    have st: "wf ?s" "unread ?s = unread s @ [c]" "free ?s = m"
      using write_step [OF Cons.prems False, of c] m by simp_all
    have loop: "circ_buffer_write_loop s (c # cs) i = circ_buffer_write_loop ?s cs (Suc i)"
      using False by simp
    show ?thesis
      unfolding loop using Cons.IH [OF st(1), of "Suc i"] st m by simp
  qed
qed

lemma read_step:
  assumes "wf s" and "tail s \<noteq> head s"
  defines "s' \<equiv> s\<lparr>tail := Suc (tail s) mod CIRC_BUFFER_SIZE\<rparr>"
  shows "wf s'" and "used s = Suc (used s')" and "unread s = circ_buffer s ! tail s # unread s'"
proof -
  from assms(1) have h: "head s < CIRC_BUFFER_SIZE" and t: "tail s < CIRC_BUFFER_SIZE"
    by (simp_all add: wf_def)
  show "wf s'"
    using assms(1) by (simp add: wf_def s'_def CIRC_BUFFER_SIZE_pos)
  have "used s \<noteq> 0"
    using assms by (simp add: empty_iff_used)
  moreover have "used s' = used s - 1"
    using ring_tail_advance [OF h t assms(2)] by (simp add: used_def s'_def)
  ultimately show u: "used s = Suc (used s')"
    by simp
  have "unread s = map (\<lambda>k. circ_buffer s ! ((tail s + k) mod CIRC_BUFFER_SIZE))
                     (0 # map Suc [0..<used s'])"
    unfolding unread_def u by (simp only: map_Suc_upt upt_conv_Cons zero_less_Suc)
  also have "\<dots> = circ_buffer s ! tail s # unread s'"
    using t by (simp add: unread_def s'_def ring_shift [OF t] comp_def)
  finally show "unread s = circ_buffer s ! tail s # unread s'" .
qed

lemma tail_advance:
  "wf s \<Longrightarrow> m \<le> used s \<Longrightarrow>
   wf (s\<lparr>tail := (tail s + m) mod CIRC_BUFFER_SIZE\<rparr>)
   \<and> unread (s\<lparr>tail := (tail s + m) mod CIRC_BUFFER_SIZE\<rparr>) = drop m (unread s)"
proof (induction m arbitrary: s)
  case 0
  then show ?case by (simp add: wf_def)
next
  case (Suc m)
  let ?s = "s\<lparr>tail := Suc (tail s) mod CIRC_BUFFER_SIZE\<rparr>"
  from Suc.prems have ne: "tail s \<noteq> head s" by (auto simp: empty_iff_used)
  note st = read_step [OF Suc.prems(1) ne]
  from Suc.prems st(2) have m: "m \<le> used ?s" by simp
  from Suc.prems(1) have t: "tail s < CIRC_BUFFER_SIZE" by (simp add: wf_def)
  have eq: "s\<lparr>tail := (tail s + Suc m) mod CIRC_BUFFER_SIZE\<rparr>
            = ?s\<lparr>tail := (tail ?s + m) mod CIRC_BUFFER_SIZE\<rparr>"
    by (simp add: ring_shift [OF t])
  show ?case
    unfolding eq using Suc.IH [OF st(1) m] st(3) by simp
qed

lemma min_Suc_step:
  fixes m c l u :: nat
  shows "Suc m = min (c - l) (Suc u) \<Longrightarrow> m = min (c - Suc l) u"
  by linarith

lemma read_loop_ok:
  "wf s \<Longrightarrow> m = min (count - length ubuf) (used s) \<Longrightarrow> \<forall>k<m. uok (length ubuf + k) \<Longrightarrow>
   device_read_loop uok count s ubuf
     = (s\<lparr>tail := (tail s + m) mod CIRC_BUFFER_SIZE\<rparr>, ubuf @ take m (unread s),
        int (length ubuf + m))"
proof (induction m arbitrary: s ubuf)
  case 0
  then have "length ubuf < count \<longrightarrow> tail s = head s"
    by (auto simp: empty_iff_used min_def split: if_splits)
  with "0.prems"(1) show ?case
    by (subst device_read_loop.simps) (auto simp: wf_def)
next
  case (Suc m)
  let ?s = "s\<lparr>tail := Suc (tail s) mod CIRC_BUFFER_SIZE\<rparr>"
  let ?u = "ubuf @ [circ_buffer s ! tail s]"
  from Suc.prems have c: "length ubuf < count" and u: "used s \<noteq> 0" by auto
  with Suc.prems have ne: "tail s \<noteq> head s" by (simp add: empty_iff_used)
  from Suc.prems(3) [rule_format, of 0] have ok0: "uok (length ubuf)" by simp
  note st = read_step [OF Suc.prems(1) ne]
  from Suc.prems(1) have t: "tail s < CIRC_BUFFER_SIZE" by (simp add: wf_def)
  from Suc.prems(2) have "Suc m = min (count - length ubuf) (Suc (used ?s))"
    using st(2) by simp
  then have m: "m = min (count - length ?u) (used ?s)"
    by (simp add: min_Suc_step)
  have ok: "\<forall>k<m. uok (length ?u + k)"
    using Suc.prems(3) by (metis Suc_less_eq add_Suc_right add_Suc_shift length_append_singleton)
  have "device_read_loop uok count s ubuf = device_read_loop uok count ?s ?u"
    using c ne ok0 by (subst device_read_loop.simps) simp
  also have "\<dots> = (?s\<lparr>tail := (tail ?s + m) mod CIRC_BUFFER_SIZE\<rparr>, ?u @ take m (unread ?s),
                     int (length ?u + m))"
    by (rule Suc.IH [OF st(1) m ok])
  also have "\<dots> = (s\<lparr>tail := (tail s + Suc m) mod CIRC_BUFFER_SIZE\<rparr>,
                     ubuf @ take (Suc m) (unread s), int (length ubuf + Suc m))"
    using st(3) by (simp add: ring_shift [OF t])
  finally show ?case .
qed

lemma read_loop_fault:
  "wf s \<Longrightarrow> j < min (count - length ubuf) (used s) \<Longrightarrow> \<forall>k<j. uok (length ubuf + k) \<Longrightarrow>
   \<not> uok (length ubuf + j) \<Longrightarrow>
   device_read_loop uok count s ubuf
     = (s\<lparr>tail := (tail s + j) mod CIRC_BUFFER_SIZE\<rparr>, ubuf @ take j (unread s), - EFAULT)"
proof (induction j arbitrary: s ubuf)
  case 0
  then have "length ubuf < count" and "tail s \<noteq> head s"
    by (auto simp: empty_iff_used)
  with "0.prems" show ?case
    by (subst device_read_loop.simps) (simp add: wf_def)
next
  case (Suc j)
  let ?s = "s\<lparr>tail := Suc (tail s) mod CIRC_BUFFER_SIZE\<rparr>"
  let ?u = "ubuf @ [circ_buffer s ! tail s]"
  from Suc.prems have c: "length ubuf < count" and u: "used s \<noteq> 0" by auto
  with Suc.prems have ne: "tail s \<noteq> head s" by (simp add: empty_iff_used)
  from Suc.prems(3) [rule_format, of 0] have ok0: "uok (length ubuf)" by simp
  note st = read_step [OF Suc.prems(1) ne]
  from Suc.prems(1) have t: "tail s < CIRC_BUFFER_SIZE" by (simp add: wf_def)
  from Suc.prems(2) have "Suc j < count - length ubuf" and "Suc j < used s"
    by simp_all
  with st(2) have "j < count - length ?u" and "j < used ?s"
    by simp_all
  then have j: "j < min (count - length ?u) (used ?s)"
    by simp
  have ok: "\<forall>k<j. uok (length ?u + k)"
    using Suc.prems(3) by (metis Suc_less_eq add_Suc_right add_Suc_shift length_append_singleton)
  have bad: "\<not> uok (length ?u + j)"
    using Suc.prems(4) by simp
  have "device_read_loop uok count s ubuf = device_read_loop uok count ?s ?u"
    using c ne ok0 by (subst device_read_loop.simps) simp
  also have "\<dots> = (?s\<lparr>tail := (tail ?s + j) mod CIRC_BUFFER_SIZE\<rparr>, ?u @ take j (unread ?s),
                     - EFAULT)"
    by (rule Suc.IH [OF st(1) j ok bad])
  also have "\<dots> = (s\<lparr>tail := (tail s + Suc j) mod CIRC_BUFFER_SIZE\<rparr>,
                     ubuf @ take (Suc j) (unread s), - EFAULT)"
    using st(3) by (simp add: ring_shift [OF t])
  finally show ?case .
qed

section \<open>The buffer as a queue of unread bytes\<close>

lemma wf_init: "wf init_driver"
  by (simp add: wf_def init_driver_def CIRC_BUFFER_SIZE_pos)

lemma used_init: "used init_driver = 0"
  by (simp add: used_def init_driver_def)

lemma unread_init: "unread init_driver = []"
  by (simp add: unread_def used_init)

lemma free_init: "free init_driver = CIRC_BUFFER_SIZE - 1"
  by (simp add: free_def used_init)

lemma wf_printk [simp]: "wf (printk lvl msg s) = wf s"
  by (simp add: wf_def printk_def)

lemma unread_printk [simp]: "unread (printk lvl msg s) = unread s"
  by (simp add: unread_def used_def printk_def)

lemma free_printk [simp]: "free (printk lvl msg s) = free s"
  by (simp add: free_def used_def printk_def)

lemma write_loop_fields:
  "tail (fst (circ_buffer_write_loop s data i)) = tail s
   \<and> wii_hid_dev (fst (circ_buffer_write_loop s data i)) = wii_hid_dev s
   \<and> wii_connected (fst (circ_buffer_write_loop s data i)) = wii_connected s
   \<and> wii_last_battery (fst (circ_buffer_write_loop s data i)) = wii_last_battery s
   \<and> hid_out (fst (circ_buffer_write_loop s data i)) = hid_out s"
  by (induction s data i rule: circ_buffer_write_loop.induct) (simp_all add: Let_def printk_def)

lemma write_loop_break:
  "wf s \<Longrightarrow> free s < length xs \<Longrightarrow>
   circ_buffer_write_loop s (xs @ ys) i = circ_buffer_write_loop s xs i"
proof (induction xs arbitrary: s i)
  case Nil
  then show ?case by simp
next
  case (Cons c cs)
  show ?case
  proof (cases "Suc (head s) mod CIRC_BUFFER_SIZE = tail s")
    case True
    then show ?thesis by simp
  next
    case False
    let ?s = "s\<lparr>circ_buffer := (circ_buffer s)[head s := c],
                 head := (head s + 1) mod CIRC_BUFFER_SIZE\<rparr>"
    have st: "wf ?s" "free ?s = free s - 1"
      using write_step [OF Cons.prems(1), of c] False by simp_all
    from False Cons.prems have "free s \<noteq> 0" by (simp add: full_iff_free)
    with Cons.prems st have "free ?s < length cs" by simp
    from Cons.IH [OF st(1) this] False show ?thesis by simp
  qed
qed

lemma write_spec:
  assumes "wf s"
  shows "wf (circ_buffer_write data s)"
    and "unread (circ_buffer_write data s) = unread s @ take (free s) data"
    and "klog (circ_buffer_write data s)
           = klog s @ (if free s < length data then [(KERN_WARNING, buffer_full_msg)] else [])"
  using write_loop_spec [OF assms, of data 0] by (simp_all add: circ_buffer_write_def)

lemma write_fields:
  "tail (circ_buffer_write data s) = tail s"
  "wii_hid_dev (circ_buffer_write data s) = wii_hid_dev s"
  "wii_connected (circ_buffer_write data s) = wii_connected s"
  "wii_last_battery (circ_buffer_write data s) = wii_last_battery s"
  "hid_out (circ_buffer_write data s) = hid_out s"
  using write_loop_fields [of s data 0] by (simp_all add: circ_buffer_write_def)

lemma free_write:
  assumes "wf s"
  shows "free (circ_buffer_write data s) = free s - length data"
proof -
  have "used (circ_buffer_write data s) = used s + min (length data) (free s)"
    using write_spec(2) [OF assms, of data] length_unread [of "circ_buffer_write data s"]
    by (simp add: length_unread min.commute)
  then show ?thesis
    using used_plus_free [of s] by (simp add: free_def)
qed

lemma single_byte_writes_spec:
  "wf s \<Longrightarrow>
   wf (single_byte_writes xs s)
   \<and> unread (single_byte_writes xs s) = unread s @ take (free s) xs
   \<and> klog (single_byte_writes xs s)
       = klog s @ replicate (length xs - free s) (KERN_WARNING, buffer_full_msg)"
proof (induction xs arbitrary: s)
  case Nil
  then show ?case by (simp add: single_byte_writes_def)
next
  case (Cons c cs)
  let ?s = "circ_buffer_write [c] s"
  note w = write_spec [OF Cons.prems, of "[c]"] free_write [OF Cons.prems, of "[c]"]
  have step: "single_byte_writes (c # cs) s = single_byte_writes cs ?s"
    by (simp add: single_byte_writes_def)
  show ?case
  proof (cases "free s")
    case 0
    with Cons.IH [OF w(1)] w show ?thesis
      unfolding step by (simp add: replicate_app_Cons_same)
  next
    case (Suc m)
    with Cons.IH [OF w(1)] w show ?thesis
      unfolding step by simp
  qed
qed

lemma device_read_cases:
  assumes "wf s"
  shows "\<exists>j\<le>min count (used s).
           device_read uok count s
             = (s\<lparr>tail := (tail s + j) mod CIRC_BUFFER_SIZE\<rparr>, take j (unread s),
                if j = min count (used s) then int j else - EFAULT)"
proof (cases "\<forall>k<min count (used s). uok k")
  case True
  then have "device_read uok count s
      = (s\<lparr>tail := (tail s + min count (used s)) mod CIRC_BUFFER_SIZE\<rparr>,
         take (min count (used s)) (unread s), int (min count (used s)))"
    using read_loop_ok [OF assms, of "min count (used s)" count "[]" uok]
    by (simp add: device_read_def)
  then show ?thesis by auto
next
  case False
  define j where "j = (LEAST k. k < min count (used s) \<and> \<not> uok k)"
  from False have ex: "\<exists>k. k < min count (used s) \<and> \<not> uok k" by auto
  from LeastI_ex [OF ex] have j: "j < min count (used s)" "\<not> uok j"
    by (simp_all add: j_def)
  have ok: "\<forall>k<j. uok k"
  proof (intro allI impI)
    fix k assume "k < j"
    with not_less_Least [of k "\<lambda>k. k < min count (used s) \<and> \<not> uok k"] j(1)
    show "uok k" by (auto simp: j_def)
  qed
  have "device_read uok count s
      = (s\<lparr>tail := (tail s + j) mod CIRC_BUFFER_SIZE\<rparr>, take j (unread s), - EFAULT)"
    using read_loop_fault [OF assms, of j count "[]" uok] j ok
    by (simp add: device_read_def)
  moreover from j(1) have "j \<noteq> min count (used s)" and "j \<le> min count (used s)"
    by linarith+
  ultimately show ?thesis by (intro exI [of _ j]) (simp only: if_False simp_thms)
qed

lemma wf_device_read: "wf s \<Longrightarrow> wf (fst (device_read uok count s))"
  using device_read_cases [of s count uok] tail_advance [of s] by auto

section \<open>Formatting\<close>

lemma length_show_nat: "n < 1000 \<Longrightarrow> length (show_nat n) \<le> 3"
  by (subst show_nat.simps, subst show_nat.simps, subst show_nat.simps) simp

lemma length_show_nat_u8: "length (show_nat (unat (b :: u8))) \<le> 3"
proof -
  have "unat b < 2 ^ LENGTH(8)" by (rule unsigned_less)
  then show ?thesis by (intro length_show_nat) simp
qed

lemma fmt_d_uint: "fmt_d (uint (b :: u8)) = show_nat (unat b)"
  by (simp add: fmt_d_def)

lemma append_if_fits:
  assumes "snd ol = length (fst ol)" and "length (fst ol) \<le> B" and "B + length str \<le> 255"
  shows "fst (append_if b str ol) = fst ol @ (if b then str else [])"
    and "snd (append_if b str ol) = length (fst (append_if b str ol))"
    and "length (fst (append_if b str ol)) \<le> B + length str"
  using assms by (cases ol; simp add: append_if_def append_fmt_def snprintf_def)+

lemma bit_tests:
  fixes b :: u8
  shows "(b AND 0x01 \<noteq> 0) = bit b 0" "(b AND 0x02 \<noteq> 0) = bit b 1"
    "(b AND 0x04 \<noteq> 0) = bit b 2" "(b AND 0x08 \<noteq> 0) = bit b 3"
    "(b AND 0x10 \<noteq> 0) = bit b 4" "(b AND 0x20 \<noteq> 0) = bit b 5"
    "(b AND 0x40 \<noteq> 0) = bit b 6"
  using and_exp_eq_0_iff_not_bit [of b 0] and_exp_eq_0_iff_not_bit [of b 1]
    and_exp_eq_0_iff_not_bit [of b 2] and_exp_eq_0_iff_not_bit [of b 3]
    and_exp_eq_0_iff_not_bit [of b 4] and_exp_eq_0_iff_not_bit [of b 5]
    and_exp_eq_0_iff_not_bit [of b 6]
  by simp_all

lemma set_bit_names_byte1:
  "set_bit_names b byte1_names =
     (if bit b 0 then ''Dpad_Right '' else []) @ (if bit b 1 then ''Dpad_Left '' else [])
     @ (if bit b 2 then ''Dpad_Down '' else []) @ (if bit b 3 then ''Dpad_Up '' else [])
     @ (if bit b 4 then ''Plus '' else []) @ (if bit b 5 then ''Minus '' else [])
     @ (if bit b 6 then ''Home '' else [])"
proof -
  have idx: "[0..<length byte1_names] = [0, 1, 2, 3, 4, 5, 6]"
    by code_simp
  show ?thesis
    unfolding set_bit_names_def idx by (simp add: byte1_names_def)
qed

lemma set_bit_names_byte2:
  "set_bit_names b byte2_names =
     (if bit b 0 then ''A '' else []) @ (if bit b 1 then ''B '' else [])
     @ (if bit b 2 then ''1 '' else []) @ (if bit b 3 then ''2 '' else [])"
proof -
  have idx: "[0..<length byte2_names] = [0, 1, 2, 3]"
    by code_simp
  show ?thesis
    unfolding set_bit_names_def idx by (simp add: byte2_names_def)
qed

lemma mapping_text_eq:
  "mapping_text report_id b1 b2
     = (spec_button_entry report_id b1 b2, length (spec_button_entry report_id b1 b2))"
proof -
  define hdr where "hdr = ''Report: ID='' @ fmt_u (unat report_id) @ '', ''"
  define ol0 where "ol0 = append_fmt hdr ([], 0)"
  define ol1 where "ol1 = append_if (bit b1 0) ''Dpad_Right '' ol0"
  define ol2 where "ol2 = append_if (bit b1 1) ''Dpad_Left '' ol1"
  define ol3 where "ol3 = append_if (bit b1 2) ''Dpad_Down '' ol2"
  define ol4 where "ol4 = append_if (bit b1 3) ''Dpad_Up '' ol3"
  define ol5 where "ol5 = append_if (bit b1 4) ''Plus '' ol4"
  define ol6 where "ol6 = append_if (bit b1 5) ''Minus '' ol5"
  define ol7 where "ol7 = append_if (bit b1 6) ''Home '' ol6"
  define ol8 where "ol8 = append_if (bit b2 0) ''A '' ol7"
  define ol9 where "ol9 = append_if (bit b2 1) ''B '' ol8"
  define ol10 where "ol10 = append_if (bit b2 2) ''1 '' ol9"
  define ol11 where "ol11 = append_if (bit b2 3) ''2 '' ol10"
  have hl: "13 \<le> length hdr" "length hdr \<le> 16"
    using length_show_nat_u8 [of report_id] by (simp_all add: hdr_def fmt_u_def)
  have s0: "fst ol0 = hdr" "snd ol0 = length (fst ol0)" "length (fst ol0) \<le> 16"
    using hl by (simp_all add: ol0_def append_fmt_def snprintf_def)
  have s1: "fst ol1 = fst ol0 @ (if bit b1 0 then ''Dpad_Right '' else [])"
    "snd ol1 = length (fst ol1)" "length (fst ol1) \<le> 27"
    using append_if_fits [OF s0(2) s0(3), of "''Dpad_Right ''" "bit b1 0"]
    by (simp_all add: ol1_def)
  have s2: "fst ol2 = fst ol1 @ (if bit b1 1 then ''Dpad_Left '' else [])"
    "snd ol2 = length (fst ol2)" "length (fst ol2) \<le> 37"
    using append_if_fits [OF s1(2) s1(3), of "''Dpad_Left ''" "bit b1 1"]
    by (simp_all add: ol2_def)
  have s3: "fst ol3 = fst ol2 @ (if bit b1 2 then ''Dpad_Down '' else [])"
    "snd ol3 = length (fst ol3)" "length (fst ol3) \<le> 47"
    using append_if_fits [OF s2(2) s2(3), of "''Dpad_Down ''" "bit b1 2"]
    by (simp_all add: ol3_def)
  have s4: "fst ol4 = fst ol3 @ (if bit b1 3 then ''Dpad_Up '' else [])"
    "snd ol4 = length (fst ol4)" "length (fst ol4) \<le> 55"
    using append_if_fits [OF s3(2) s3(3), of "''Dpad_Up ''" "bit b1 3"]
    by (simp_all add: ol4_def)
  have s5: "fst ol5 = fst ol4 @ (if bit b1 4 then ''Plus '' else [])"
    "snd ol5 = length (fst ol5)" "length (fst ol5) \<le> 60"
    using append_if_fits [OF s4(2) s4(3), of "''Plus ''" "bit b1 4"]
    by (simp_all add: ol5_def)
  have s6: "fst ol6 = fst ol5 @ (if bit b1 5 then ''Minus '' else [])"
    "snd ol6 = length (fst ol6)" "length (fst ol6) \<le> 66"
    using append_if_fits [OF s5(2) s5(3), of "''Minus ''" "bit b1 5"]
    by (simp_all add: ol6_def)
  have s7: "fst ol7 = fst ol6 @ (if bit b1 6 then ''Home '' else [])"
    "snd ol7 = length (fst ol7)" "length (fst ol7) \<le> 71"
    using append_if_fits [OF s6(2) s6(3), of "''Home ''" "bit b1 6"]
    by (simp_all add: ol7_def)
  have s8: "fst ol8 = fst ol7 @ (if bit b2 0 then ''A '' else [])"
    "snd ol8 = length (fst ol8)" "length (fst ol8) \<le> 73"
    using append_if_fits [OF s7(2) s7(3), of "''A ''" "bit b2 0"]
    by (simp_all add: ol8_def)
  have s9: "fst ol9 = fst ol8 @ (if bit b2 1 then ''B '' else [])"
    "snd ol9 = length (fst ol9)" "length (fst ol9) \<le> 75"
    using append_if_fits [OF s8(2) s8(3), of "''B ''" "bit b2 1"]
    by (simp_all add: ol9_def)
  have s10: "fst ol10 = fst ol9 @ (if bit b2 2 then ''1 '' else [])"
    "snd ol10 = length (fst ol10)" "length (fst ol10) \<le> 77"
    using append_if_fits [OF s9(2) s9(3), of "''1 ''" "bit b2 2"]
    by (simp_all add: ol10_def)
  have s11: "fst ol11 = fst ol10 @ (if bit b2 3 then ''2 '' else [])"
    "snd ol11 = length (fst ol11)" "length (fst ol11) \<le> 79"
    using append_if_fits [OF s10(2) s10(3), of "''2 ''" "bit b2 3"]
    by (simp_all add: ol11_def)
  have entry: "fst ol11 @ ''\<newline>'' = spec_button_entry report_id b1 b2"
    unfolding s11(1) s10(1) s9(1) s8(1) s7(1) s6(1) s5(1) s4(1) s3(1) s2(1) s1(1) s0(1)
    by (simp add: spec_button_entry_def set_bit_names_byte1 set_bit_names_byte2 hdr_def fmt_u_def)
  have "13 \<le> length (fst ol11)"
    unfolding s11(1) s10(1) s9(1) s8(1) s7(1) s6(1) s5(1) s4(1) s3(1) s2(1) s1(1) s0(1)
    using hl(1) by simp
  then have nz: "snd ol11 \<noteq> 0" and lt: "snd ol11 < 255"
    using s11(2) s11(3) by linarith+
  have "mapping_text report_id b1 b2 = (take (snd ol11) (fst ol11) @ ''\<newline>'', snd ol11 + 1)"
    using nz lt
    unfolding mapping_text_def bit_tests Let_def
    by (simp add: ol11_def ol10_def ol9_def ol8_def ol7_def ol6_def ol5_def ol4_def ol3_def
        ol2_def ol1_def ol0_def hdr_def)
  also have "\<dots> = (fst ol11 @ ''\<newline>'', length (fst ol11 @ ''\<newline>''))"
    by (simp add: s11(2))
  finally show ?thesis
    unfolding entry .
qed

section \<open>The raw event callback\<close>

lemma perform_input_mapping_entry:
  "3 \<le> length data \<Longrightarrow>
   perform_input_mapping data s
     = circ_buffer_write (spec_button_entry (data ! 0) (data ! 1) (data ! 2)) s"
  by (simp add: perform_input_mapping_def mapping_text_eq)

lemma raw_event_buttons:
  "3 \<le> length data \<Longrightarrow> data ! 0 \<noteq> 0x20 \<Longrightarrow>
   wii_raw_event data s
     = (circ_buffer_write (spec_button_entry (data ! 0) (data ! 1) (data ! 2))
          (printk KERN_INFO (raw_event_msg data) s), 0)"
  by (simp add: wii_raw_event_def perform_input_mapping_entry)

lemma length_spec_battery_entry: "length (spec_battery_entry b) \<le> 13"
  using length_show_nat_u8 [of b] by (simp add: spec_battery_entry_def)

lemma raw_event_battery:
  "2 \<le> length data \<Longrightarrow> data ! 0 = 0x20 \<Longrightarrow>
   wii_raw_event data s
     = (circ_buffer_write (spec_battery_entry (data ! 1))
          (printk KERN_INFO ''Battery status report detected.\<newline>''
             (printk KERN_INFO (raw_event_msg data) s)
           \<lparr>wii_last_battery := uint (data ! 1)\<rparr>), 0)"
  using length_spec_battery_entry [of "data ! 1"]
  by (auto simp: wii_raw_event_def Let_def snprintf_def fmt_d_uint spec_battery_entry_def)

lemma raw_event_short:
  "length data < 3 \<Longrightarrow> data = [] \<or> data ! 0 \<noteq> 0x20 \<Longrightarrow>
   wii_raw_event data s
     = (printk KERN_WARNING too_short_msg (printk KERN_INFO (raw_event_msg data) s), 0)"
  by (auto simp: wii_raw_event_def perform_input_mapping_def)

lemma raw_event_lone_status:
  "wii_raw_event [0x20] s
     = (printk KERN_INFO ''Battery status report detected.\<newline>''
          (printk KERN_INFO (raw_event_msg [0x20]) s), 0)"
  by (simp add: wii_raw_event_def)

lemma wf_battery [simp]: "wf (s\<lparr>wii_last_battery := b\<rparr>) = wf s"
  by (simp add: wf_def)

lemma unread_battery [simp]: "unread (s\<lparr>wii_last_battery := b\<rparr>) = unread s"
  by (simp add: unread_def used_def)

lemma free_battery [simp]: "free (s\<lparr>wii_last_battery := b\<rparr>) = free s"
  by (simp add: free_def used_def)

lemma raw_event_classes:
  fixes data :: "u8 list"
  shows "(2 \<le> length data \<and> data ! 0 = 0x20) \<or> (length data = 1 \<and> data ! 0 = 0x20)
   \<or> (length data < 3 \<and> (data = [] \<or> data ! 0 \<noteq> 0x20)) \<or> (3 \<le> length data \<and> data ! 0 \<noteq> 0x20)"
  by (cases data) (auto simp: Suc_le_eq)

lemma wf_raw_event: "wf s \<Longrightarrow> wf (fst (wii_raw_event data s))"
proof -
  assume w: "wf s"
  consider "2 \<le> length data \<and> data ! 0 = 0x20" | "length data = 1 \<and> data ! 0 = 0x20"
    | "length data < 3 \<and> (data = [] \<or> data ! 0 \<noteq> 0x20)" | "3 \<le> length data \<and> data ! 0 \<noteq> 0x20"
    using raw_event_classes [of data] by blast
  then show ?thesis
  proof cases
    case 1
    with w show ?thesis by (simp add: raw_event_battery write_spec(1))
  next
    case 2
    then have "data = [0x20]" by (cases data) auto
    with w show ?thesis by (simp add: raw_event_lone_status)
  next
    case 3
    with w show ?thesis by (simp add: raw_event_short)
  next
    case 4
    with w show ?thesis by (simp add: raw_event_buttons write_spec(1))
  qed
qed

lemma wf_step: "wf s \<Longrightarrow> wf (step c s)"
proof (cases c)
  case (Probe h p st)
  assume "wf s" with Probe show ?thesis by (simp add: wii_probe_def wf_def printk_def)
next
  case (Remove h)
  assume "wf s" with Remove show ?thesis by (simp add: wii_remove_def wf_def printk_def)
next
  case (RawEvent data)
  assume "wf s" with RawEvent show ?thesis by (simp add: wf_raw_event)
next
  case (Read uok count)
  assume "wf s" with Read show ?thesis by (simp add: wf_device_read)
next
  case (Ioctl cmd r)
  assume "wf s" with Ioctl show ?thesis
    by (simp add: device_ioctl_def wf_def printk_def Let_def split: option.splits)
qed

lemma run_snoc: "run (cs @ [c]) s = step c (run cs s)"
  by (simp add: run_def)

lemma wf_run: "wf (run cs init_driver)"
  by (induction cs rule: rev_induct) (simp_all add: run_snoc wf_step, simp add: run_def wf_init)

lemma sans_log_eq_iff:
  "(sans_log s1 = sans_log s2) =
     (circ_buffer s1 = circ_buffer s2 \<and> head s1 = head s2 \<and> tail s1 = tail s2
      \<and> wii_hid_dev s1 = wii_hid_dev s2 \<and> wii_connected s1 = wii_connected s2
      \<and> wii_last_battery s1 = wii_last_battery s2 \<and> hid_out s1 = hid_out s2)"
  by (cases s1; cases s2) (simp add: sans_log_def)

lemma sans_log_printk [simp]: "sans_log (printk lvl msg s) = sans_log s"
  by (simp add: sans_log_def printk_def)

lemma write_loop_sans_log:
  "sans_log s1 = sans_log s2 \<Longrightarrow>
   sans_log (fst (circ_buffer_write_loop s1 d i)) = sans_log (fst (circ_buffer_write_loop s2 d i))"
proof (induction d arbitrary: s1 s2 i)
  case Nil
  then show ?case by simp
next
  case (Cons c cs)
  from Cons.prems have eq: "head s1 = head s2" "tail s1 = tail s2"
    by (simp_all add: sans_log_eq_iff)
  show ?case
  proof (cases "Suc (head s1) mod CIRC_BUFFER_SIZE = tail s1")
    case True
    with eq Cons.prems show ?thesis by simp
  next
    case False
    have "sans_log (s1\<lparr>circ_buffer := (circ_buffer s1)[head s1 := c],
                       head := Suc (head s1) mod CIRC_BUFFER_SIZE\<rparr>)
        = sans_log (s2\<lparr>circ_buffer := (circ_buffer s2)[head s2 := c],
                         head := Suc (head s2) mod CIRC_BUFFER_SIZE\<rparr>)"
      using Cons.prems by (simp add: sans_log_eq_iff)
    from Cons.IH [OF this] False eq show ?thesis by simp
  qed
qed

lemma write_sans_log:
  "sans_log s1 = sans_log s2 \<Longrightarrow>
   sans_log (circ_buffer_write d s1) = sans_log (circ_buffer_write d s2)"
  unfolding circ_buffer_write_def by (rule write_loop_sans_log)

lemma klog_update_printk:
  "s\<lparr>klog := klog s @ [(l1, m1), (l2, m2)]\<rparr> = printk l2 m2 (printk l1 m1 s)"
  by (simp add: printk_def)

section \<open>Reports that are discarded\<close>

text \<open>
  Claim C8. A report shorter than three bytes that is not a battery report (it is empty,
  or its first byte is not \<open>0x20\<close>) is rejected as too short: the callback logs the
  report and the warning \<^verbatim>\<open>Report too short for mapping\<close>, returns 0, and changes
  nothing else. No byte is written to the channel (buffer and both cursors are as
  before), and neither the connection state nor the cached battery level changes.
\<close>

theorem short_report_rejected:
  "length data < 3 \<Longrightarrow> data = [] \<or> data ! 0 \<noteq> 0x20 \<Longrightarrow>
   wii_raw_event data s
     = (s\<lparr>klog := klog s @ [(KERN_INFO, raw_event_msg data), (KERN_WARNING, too_short_msg)]\<rparr>, 0)
   \<and> circ_buffer (fst (wii_raw_event data s)) = circ_buffer s
   \<and> head (fst (wii_raw_event data s)) = head s
   \<and> tail (fst (wii_raw_event data s)) = tail s
   \<and> wii_connected (fst (wii_raw_event data s)) = wii_connected s
   \<and> wii_last_battery (fst (wii_raw_event data s)) = wii_last_battery s"
  by (simp add: raw_event_short printk_def)

theorem short_report_rejected_witness:
  "length [0x31, 0x01 :: u8] < 3 \<and> ([0x31, 0x01 :: u8] = [] \<or> [0x31, 0x01 :: u8] ! 0 \<noteq> 0x20)
   \<and> wii_raw_event [0x31, 0x01] init_driver
       = (init_driver\<lparr>klog := [(KERN_INFO, ''wii_raw_event: received report: 31 01 \<newline>''),
                                  (KERN_WARNING, ''wii_remote_driver: Report too short for mapping\<newline>'')]\<rparr>, 0)"
proof -
  have msg: "raw_event_msg [0x31, 0x01] = ''wii_raw_event: received report: 31 01 \<newline>''"
    by code_simp
  have k: "klog init_driver = []"
    by (simp add: init_driver_def)
  show ?thesis
    using short_report_rejected [of "[0x31, 0x01]" init_driver]
    by (simp add: msg k too_short_msg_def DRIVER_NAME_def)
qed

text \<open>
  Claim C9. The one-byte report \<open>[0x20]\<close> is discarded: the callback returns 0 having
  added two informational log lines and nothing else, so no channel write and no change
  of the connection state or of the cached battery level occur. The driver has no
  decode value of its own; a rejected report is one that leaves everything but the log
  as it was. The classification is total: on every byte sequence the callback returns 0,
  and apart from the log its effect is exactly one of three, chosen by the bytes alone:
  the battery entry is written and the level cached, or nothing happens, or the button
  entry is written.
\<close>

theorem lone_status_byte_discarded:
  "wii_raw_event [0x20] s
     = (s\<lparr>klog := klog s @ [(KERN_INFO, raw_event_msg [0x20]),
                              (KERN_INFO, ''Battery status report detected.\<newline>'')]\<rparr>, 0)
   \<and> snd (wii_raw_event data s) = 0
   \<and> sans_log (fst (wii_raw_event data s))
       = sans_log
           (if 2 \<le> length data \<and> data ! 0 = 0x20
            then circ_buffer_write (spec_battery_entry (data ! 1))
                   (s\<lparr>wii_last_battery := uint (data ! 1)\<rparr>)
            else if length data < 3 then s
            else circ_buffer_write (spec_button_entry (data ! 0) (data ! 1) (data ! 2)) s)"
proof -
  have lone: "wii_raw_event [0x20] s
     = (s\<lparr>klog := klog s @ [(KERN_INFO, raw_event_msg [0x20]),
                              (KERN_INFO, ''Battery status report detected.\<newline>'')]\<rparr>, 0)"
    by (simp add: raw_event_lone_status printk_def)
  consider "2 \<le> length data \<and> data ! 0 = 0x20" | "length data = 1 \<and> data ! 0 = 0x20"
    | "length data < 3 \<and> (data = [] \<or> data ! 0 \<noteq> 0x20)" | "3 \<le> length data \<and> data ! 0 \<noteq> 0x20"
    using raw_event_classes [of data] by blast
  then have "snd (wii_raw_event data s) = 0
   \<and> sans_log (fst (wii_raw_event data s))
       = sans_log
           (if 2 \<le> length data \<and> data ! 0 = 0x20
            then circ_buffer_write (spec_battery_entry (data ! 1))
                   (s\<lparr>wii_last_battery := uint (data ! 1)\<rparr>)
            else if length data < 3 then s
            else circ_buffer_write (spec_button_entry (data ! 0) (data ! 1) (data ! 2)) s)"
  proof cases
    case 1
    then show ?thesis
      by (simp add: raw_event_battery) (rule write_sans_log, simp add: sans_log_eq_iff printk_def)
  next
    case 2
    then have "data = [0x20]" by (cases data) auto
    then show ?thesis by (simp add: raw_event_lone_status)
  next
    case 3
    then show ?thesis by (auto simp: raw_event_short)
  next
    case 4
    then show ?thesis
      by (simp add: raw_event_buttons) (rule write_sans_log, simp)
  qed
  with lone show ?thesis by simp
qed

section \<open>Battery reports\<close>

lemma write_fits:
  "wf s \<Longrightarrow> length data \<le> free s \<Longrightarrow>
   unread (circ_buffer_write data s) = unread s @ data"
  by (simp add: write_spec(2))

lemma free_init_value: "free init_driver = 1023"
  by (simp add: free_init CIRC_BUFFER_SIZE_def)

text \<open>
  Claim C5. For every report whose first byte is \<open>0x20\<close> and that has at least two
  bytes, in any state the driver can be in (connected or not), the callback hands the
  entry \<^verbatim>\<open>Battery: <level>\<close> plus newline, with the level \<open>raw[1]\<close> in unsigned
  decimal, to the channel write and caches \<open>raw[1]\<close> as the last battery level; the
  connection state is untouched. The bytes reach the channel as far as it has room. On
  the report \<open>[0x20, 0x5A]\<close> in the initial state the channel then holds
  \<^verbatim>\<open>Battery: 90\<close> plus newline and the cached level is 90.
\<close>

theorem battery_report_written_and_cached:
  "2 \<le> length data \<Longrightarrow> data ! 0 = 0x20 \<Longrightarrow>
   sans_log (fst (wii_raw_event data s))
     = sans_log (circ_buffer_write (spec_battery_entry (data ! 1))
                   (s\<lparr>wii_last_battery := int (unat (data ! 1))\<rparr>))
   \<and> wii_last_battery (fst (wii_raw_event data s)) = int (unat (data ! 1))
   \<and> wii_connected (fst (wii_raw_event data s)) = wii_connected s
   \<and> wii_hid_dev (fst (wii_raw_event data s)) = wii_hid_dev s
   \<and> unread (fst (wii_raw_event data (run cs init_driver)))
       = unread (run cs init_driver) @ take (free (run cs init_driver)) (spec_battery_entry (data ! 1))
   \<and> unread (fst (wii_raw_event [0x20, 0x5A] init_driver)) = ''Battery: 90\<newline>''
   \<and> wii_last_battery (fst (wii_raw_event [0x20, 0x5A] init_driver)) = 90"
proof -
  assume len: "2 \<le> length data" and id: "data ! 0 = 0x20"
  have a: "sans_log (fst (wii_raw_event data s))
     = sans_log (circ_buffer_write (spec_battery_entry (data ! 1))
                   (s\<lparr>wii_last_battery := int (unat (data ! 1))\<rparr>))"
    using len id
    by (simp add: raw_event_battery) (rule write_sans_log, simp add: sans_log_eq_iff printk_def)
  have b: "wii_last_battery (fst (wii_raw_event data s)) = int (unat (data ! 1))"
    "wii_connected (fst (wii_raw_event data s)) = wii_connected s"
    "wii_hid_dev (fst (wii_raw_event data s)) = wii_hid_dev s"
    using len id by (simp_all add: raw_event_battery write_fields printk_def)
  have c: "unread (fst (wii_raw_event data (run cs init_driver)))
       = unread (run cs init_driver) @ take (free (run cs init_driver)) (spec_battery_entry (data ! 1))"
    using len id wf_run [of cs] by (simp add: raw_event_battery write_spec(2))
  have e: "spec_battery_entry 0x5A = ''Battery: 90\<newline>''"
    by code_simp
  have d: "unread (fst (wii_raw_event [0x20, 0x5A] init_driver)) = ''Battery: 90\<newline>''"
    using wf_init by (simp add: raw_event_battery write_spec(2) unread_init free_init_value e)
  have f: "wii_last_battery (fst (wii_raw_event [0x20, 0x5A] init_driver)) = 90"
    by (simp add: raw_event_battery write_fields printk_def)
  from a b c d f show ?thesis by simp
qed

theorem battery_report_written_and_cached_witness:
  "2 \<le> length [0x20, 0x07 :: u8] \<and> [0x20, 0x07 :: u8] ! 0 = 0x20
   \<and> wii_last_battery (fst (wii_raw_event [0x20, 0x07] (fst (wii_probe 1 0 0 init_driver)))) = 7
   \<and> wii_connected (fst (wii_raw_event [0x20, 0x07] (fst (wii_probe 1 0 0 init_driver)))) = 1"
  using battery_report_written_and_cached [of "[0x20, 0x07]" "fst (wii_probe 1 0 0 init_driver)" "[]"]
  by (simp add: wii_probe_def printk_def)

section \<open>Button reports\<close>

text \<open>
  Claim C2. For every report of at least three bytes whose first byte is not \<open>0x20\<close>,
  whatever bytes 1 and 2 are, the entry the callback hands to the channel write is the
  header \<^verbatim>\<open>Report: ID=<id>, \<close> with the id in unsigned decimal, then the names of
  exactly the set bits in the fixed order (bits 0..6 of byte 1, bits 0..3 of byte 2),
  each followed by a space, then a newline. The bytes reach the channel as far as it has
  room. On \<open>[0x31, 0x01, 0x00]\<close> in the initial state the channel then holds
  \<^verbatim>\<open>Report: ID=49, Dpad_Right \<close> plus newline.
\<close>

theorem button_report_entry:
  "3 \<le> length data \<Longrightarrow> data ! 0 \<noteq> 0x20 \<Longrightarrow>
   wii_raw_event data s
     = (circ_buffer_write (spec_button_entry (data ! 0) (data ! 1) (data ! 2))
          (printk KERN_INFO (raw_event_msg data) s), 0)
   \<and> unread (fst (wii_raw_event data (run cs init_driver)))
       = unread (run cs init_driver)
         @ take (free (run cs init_driver)) (spec_button_entry (data ! 0) (data ! 1) (data ! 2))
   \<and> unread (fst (wii_raw_event [0x31, 0x01, 0x00] init_driver)) = ''Report: ID=49, Dpad_Right \<newline>''"
proof -
  assume len: "3 \<le> length data" and id: "data ! 0 \<noteq> 0x20"
  have e: "spec_button_entry 0x31 0x01 0x00 = ''Report: ID=49, Dpad_Right \<newline>''"
    by code_simp
  have d: "unread (fst (wii_raw_event [0x31, 0x01, 0x00] init_driver))
             = ''Report: ID=49, Dpad_Right \<newline>''"
    using wf_init by (simp add: raw_event_buttons write_spec(2) unread_init free_init_value e)
  have c: "unread (fst (wii_raw_event data (run cs init_driver)))
       = unread (run cs init_driver)
         @ take (free (run cs init_driver)) (spec_button_entry (data ! 0) (data ! 1) (data ! 2))"
    using len id wf_run [of cs] by (simp add: raw_event_buttons write_spec(2))
  from len id c d show ?thesis by (simp add: raw_event_buttons)
qed

theorem button_report_entry_witness:
  "3 \<le> length [0x31, 0x18, 0x0A :: u8] \<and> [0x31, 0x18, 0x0A :: u8] ! 0 \<noteq> 0x20
   \<and> unread (fst (wii_raw_event [0x31, 0x18, 0x0A] init_driver))
       = ''Report: ID=49, Dpad_Up Plus B 2 \<newline>''"
proof -
  have e: "spec_button_entry 0x31 0x18 0x0A = ''Report: ID=49, Dpad_Up Plus B 2 \<newline>''"
    by code_simp
  have r: "run [] init_driver = init_driver"
    by (simp add: run_def)
  have h1: "3 \<le> length [0x31, 0x18, 0x0A :: u8]" and h2: "[0x31, 0x18, 0x0A :: u8] ! 0 \<noteq> 0x20"
    by simp_all
  from button_report_entry [OF h1 h2, where s = init_driver and cs = "[]"]
  have "unread (fst (wii_raw_event [0x31, 0x18, 0x0A] (run [] init_driver)))
          = unread (run [] init_driver)
            @ take (free (run [] init_driver))
                (spec_button_entry ([0x31, 0x18, 0x0A] ! 0) ([0x31, 0x18, 0x0A] ! 1) ([0x31, 0x18, 0x0A] ! 2))"
    by (rule conjunct1 [OF conjunct2])
  then show ?thesis
    by (simp add: r unread_init free_init_value e)
qed

text \<open>
  Claim C1. On the report \<open>[0x31, 0x00, 0x00]\<close>, where none of the eleven button bits is
  set, the channel receives the header and a newline, not \<^verbatim>\<open>No buttons pressed\<close>:
  the test \<^verbatim>\<open>len == 0\<close> that guards that text comes after the header has been
  formatted, so it never holds.
\<close>

theorem no_buttons_entry_is_header_only:
  "unread (fst (wii_raw_event [0x31, 0x00, 0x00] init_driver)) = ''Report: ID=49, \<newline>''
   \<and> mapping_text 0x31 0x00 0x00 = (''Report: ID=49, \<newline>'', 16)"
proof -
  have e: "spec_button_entry 0x31 0x00 0x00 = ''Report: ID=49, \<newline>''"
    by code_simp
  have m: "mapping_text 0x31 0x00 0x00 = (''Report: ID=49, \<newline>'', 16)"
    by code_simp
  have "unread (fst (wii_raw_event [0x31, 0x00, 0x00] init_driver)) = ''Report: ID=49, \<newline>''"
    using wf_init by (simp add: raw_event_buttons write_spec(2) unread_init free_init_value e)
  with m show ?thesis by simp
qed

section \<open>The channel: writes\<close>

lemma free_eq: "free s = CIRC_BUFFER_SIZE - 1 - length (unread s)"
  by (simp add: free_def length_unread)

lemma full_iff_free_plus: "wf s \<Longrightarrow> (free s = 0) = ((head s + 1) mod CIRC_BUFFER_SIZE = tail s)"
  by (simp add: full_iff_free)

lemma write_loop_index:
  "wf s \<Longrightarrow> snd (circ_buffer_write_loop s data 0) = min (length data) (free s)"
  using write_loop_spec [of s data 0] by simp

lemma buffer_full_msg_text:
  "buffer_full_msg = ''wii_remote_driver: circular buffer full, dropping data\<newline>''"
  by (simp add: buffer_full_msg_def DRIVER_NAME_def)

lemma klog_init: "klog init_driver = []"
  by (simp add: init_driver_def)

lemma run_Nil: "run [] s = s"
  by (simp add: run_def)

text \<open>
  Claim C3. In every state the driver can reach, a write leaves the unread bytes as they
  were and appends only as many bytes of the data as there is room for; the room is 0
  exactly when advancing the write cursor would make it equal the read cursor, and the
  read cursor does not move. The unread bytes never number more than
  \<open>CIRC_BUFFER_SIZE - 1 = 1023\<close>. After 1024 single-byte writes into the initial buffer
  with no read in between, the buffer holds the first 1023 bytes; the last write was
  dropped, with one warning in the log.
\<close>

theorem write_never_overwrites_unread:
  "s = run cs init_driver \<Longrightarrow>
   unread (circ_buffer_write data s) = unread s @ take (free s) data
   \<and> tail (circ_buffer_write data s) = tail s
   \<and> (free s = 0) = ((head s + 1) mod CIRC_BUFFER_SIZE = tail s)
   \<and> free s = 1023 - length (unread s)
   \<and> length (unread s) \<le> 1023
   \<and> length (unread (circ_buffer_write data s)) \<le> 1023
   \<and> (length xs = 1024 \<longrightarrow>
        unread (single_byte_writes xs init_driver) = take 1023 xs
        \<and> klog (single_byte_writes xs init_driver) = [(KERN_WARNING, buffer_full_msg)])"
proof -
  assume s: "s = run cs init_driver"
  then have w: "wf s" by (simp add: wf_run)
  have bound: "length (unread t) \<le> 1023" for t
    using used_less [of t] by (simp add: length_unread CIRC_BUFFER_SIZE_def)
  have single: "length xs = 1024 \<longrightarrow>
        unread (single_byte_writes xs init_driver) = take 1023 xs
        \<and> klog (single_byte_writes xs init_driver) = [(KERN_WARNING, buffer_full_msg)]"
    using single_byte_writes_spec [OF wf_init, of xs] klog_init
    by (simp add: unread_init free_init_value)
  have a: "unread (circ_buffer_write data s) = unread s @ take (free s) data"
    by (rule write_spec(2) [OF w])
  have b: "tail (circ_buffer_write data s) = tail s"
    by (rule write_fields(1))
  have c: "(free s = 0) = ((head s + 1) mod CIRC_BUFFER_SIZE = tail s)"
    using w by (simp add: full_iff_free)
  have d: "free s = 1023 - length (unread s)"
    by (simp add: free_eq CIRC_BUFFER_SIZE_def)
  show ?thesis
    by (intro conjI) (rule a b c d bound single)+
qed

theorem write_never_overwrites_unread_witness:
  "init_driver = run [] init_driver
   \<and> unread (circ_buffer_write ''abc'' init_driver) = ''abc''
   \<and> length (replicate 1024 (CHR ''x'')) = 1024
   \<and> unread (single_byte_writes (replicate 1024 (CHR ''x'')) init_driver) = replicate 1023 (CHR ''x'')"
  using write_never_overwrites_unread [of init_driver "[]" "''abc''" "replicate 1024 (CHR ''x'')"]
  by (simp add: run_Nil unread_init free_init_value)

text \<open>
  Claim C7, the counterexample. Writing 1024 bytes and writing 1025 bytes into the
  initial buffer leave the very same state, log included, and the function returns
  nothing: both loops stop at index 1023, so one write dropped 1 byte and the other 2,
  and the single log line is the same fixed text with no count in it.
\<close>

theorem write_outcome_hides_drop_count:
  "circ_buffer_write (replicate 1024 (CHR ''x'')) init_driver
     = circ_buffer_write (replicate 1025 (CHR ''x'')) init_driver
   \<and> snd (circ_buffer_write_loop init_driver (replicate 1024 (CHR ''x'')) 0) = 1023
   \<and> snd (circ_buffer_write_loop init_driver (replicate 1025 (CHR ''x'')) 0) = 1023
   \<and> klog (circ_buffer_write (replicate 1025 (CHR ''x'')) init_driver)
       = [(KERN_WARNING, ''wii_remote_driver: circular buffer full, dropping data\<newline>'')]"
proof -
  have "replicate 1025 (CHR ''x'') = CHR ''x'' # replicate 1024 (CHR ''x'')"
    using replicate_Suc [of 1024 "CHR ''x''"] by simp
  then have split: "replicate 1025 (CHR ''x'') = replicate 1024 (CHR ''x'') @ [CHR ''x'']"
    by (simp only: replicate_append_same)
  have "circ_buffer_write_loop init_driver (replicate 1024 (CHR ''x'') @ [CHR ''x'']) 0
          = circ_buffer_write_loop init_driver (replicate 1024 (CHR ''x'')) 0"
    by (rule write_loop_break [OF wf_init]) (simp add: free_init_value)
  then have same: "circ_buffer_write (replicate 1024 (CHR ''x'')) init_driver
     = circ_buffer_write (replicate 1025 (CHR ''x'')) init_driver"
    by (simp add: circ_buffer_write_def split)
  have i1: "snd (circ_buffer_write_loop init_driver (replicate 1024 (CHR ''x'')) 0) = 1023"
    by (simp add: write_loop_index [OF wf_init] free_init_value)
  have i2: "snd (circ_buffer_write_loop init_driver (replicate 1025 (CHR ''x'')) 0) = 1023"
    by (simp add: write_loop_index [OF wf_init] free_init_value)
  have l: "klog (circ_buffer_write (replicate 1025 (CHR ''x'')) init_driver)
       = [(KERN_WARNING, ''wii_remote_driver: circular buffer full, dropping data\<newline>'')]"
    using write_spec(3) [OF wf_init, of "replicate 1025 (CHR ''x'')"]
    by (simp add: free_init_value buffer_full_msg_text klog_init)
  from same i1 i2 l show ?thesis by simp
qed

text \<open>
  Claim C7, as amended. In every state the driver can reach, a write stores the bytes
  for which there is room and stops at the first byte that would make the write cursor
  meet the read cursor, dropping that byte and all after it. It returns nothing. When
  it drops anything it logs one fixed warning line, which carries no count; the loop
  index at which it stopped, \<open>min (length data) (free s)\<close>, is not reported.
\<close>

theorem write_stops_when_full_and_warns:
  "s = run cs init_driver \<Longrightarrow>
   unread (circ_buffer_write data s) = unread s @ take (free s) data
   \<and> snd (circ_buffer_write_loop s data 0) = min (length data) (free s)
   \<and> klog (circ_buffer_write data s)
       = klog s @ (if free s < length data then [(KERN_WARNING, buffer_full_msg)] else [])
   \<and> buffer_full_msg = ''wii_remote_driver: circular buffer full, dropping data\<newline>''"
proof -
  assume "s = run cs init_driver"
  then have w: "wf s" by (simp add: wf_run)
  show ?thesis
    using write_spec(2,3) [OF w, of data] write_loop_index [OF w, of data] buffer_full_msg_text
    by simp
qed

theorem write_stops_when_full_and_warns_witness:
  "init_driver = run [] init_driver
   \<and> unread (circ_buffer_write (replicate 1025 (CHR ''x'')) init_driver) = replicate 1023 (CHR ''x'')
   \<and> snd (circ_buffer_write_loop init_driver (replicate 1025 (CHR ''x'')) 0) = 1023"
  using write_stops_when_full_and_warns [of init_driver "[]" "replicate 1025 (CHR ''x'')"]
  by (simp add: run_Nil unread_init free_init_value)

section \<open>The channel: reads\<close>

lemma device_read_ok:
  assumes "wf s" and "\<forall>k<min count (used s). uok k"
  shows "device_read uok count s
           = (s\<lparr>tail := (tail s + min count (used s)) mod CIRC_BUFFER_SIZE\<rparr>,
              take count (unread s), int (min count (used s)))"
proof -
  have "take (min count (used s)) (unread s) = take count (unread s)"
    by (simp add: min_def length_unread)
  with read_loop_ok [OF assms(1), of "min count (used s)" count "[]" uok] assms(2)
  show ?thesis by (simp add: device_read_def)
qed

lemma device_read_fault:
  assumes "wf s" and "j < count" and "j < used s" and "\<forall>k<j. uok k" and "\<not> uok j"
  shows "device_read uok count s
           = (s\<lparr>tail := (tail s + j) mod CIRC_BUFFER_SIZE\<rparr>, take j (unread s), - EFAULT)"
  using read_loop_fault [OF assms(1), of j count "[]" uok] assms(2-5)
  by (simp add: device_read_def)

lemma device_read_bounds:
  assumes "wf s"
  shows "length (fst (snd (device_read uok count s))) \<le> min count (used s)"
    and "snd (snd (device_read uok count s)) \<le> int (min count (used s))"
proof -
  from device_read_cases [OF assms, of count uok]
  obtain j where j: "j \<le> min count (used s)"
    and r: "device_read uok count s
             = (s\<lparr>tail := (tail s + j) mod CIRC_BUFFER_SIZE\<rparr>, take j (unread s),
                if j = min count (used s) then int j else - EFAULT)"
    by blast
  from j show "length (fst (snd (device_read uok count s))) \<le> min count (used s)"
    by (simp add: r length_unread)
  show "snd (snd (device_read uok count s)) \<le> int (min count (used s))"
    by (simp add: r EFAULT_def)
qed

lemma device_read_empty:
  assumes "wf s" and "tail s = head s"
  shows "device_read uok count s = (s, [], 0)"
proof -
  from assms have u: "used s = 0" by (simp add: empty_iff_used)
  from assms(1) have t: "tail s < CIRC_BUFFER_SIZE" by (simp add: wf_def)
  have "device_read uok count s
          = (s\<lparr>tail := (tail s + min count (used s)) mod CIRC_BUFFER_SIZE\<rparr>,
             take count (unread s), int (min count (used s)))"
    by (rule device_read_ok [OF assms(1)]) (simp add: u)
  with u t show ?thesis by (simp add: unread_def)
qed

lemma unread_after_read:
  assumes "wf s" and "j \<le> used s"
  shows "unread (s\<lparr>tail := (tail s + j) mod CIRC_BUFFER_SIZE\<rparr>) = drop j (unread s)"
    and "wf (s\<lparr>tail := (tail s + j) mod CIRC_BUFFER_SIZE\<rparr>)"
  using tail_advance [OF assms] by simp_all

lemma unread_write_abc: "unread (circ_buffer_write ''abc'' init_driver) = ''abc''"
  using wf_init by (simp add: write_spec(2) unread_init free_init_value)

text \<open>
  Claim C4. Take any state the driver can reach. If its buffer is empty, writing at most
  \<open>CIRC_BUFFER_SIZE - 1\<close> bytes and then reading with a count of at least that many
  into a writable user buffer returns exactly those bytes in the order written, their
  number as the return value, and leaves the buffer empty. A read is a terminating
  function of its arguments: it never waits. It stores at most
  \<open>min count available\<close> bytes and returns at most that number; into a writable user
  buffer it stores exactly the first \<open>min count available\<close> unread bytes. On an
  empty buffer it returns 0, stores nothing and changes nothing.
\<close>

theorem channel_round_trip:
  "s = run cs init_driver \<Longrightarrow>
   (tail s = head s \<and> length data \<le> CIRC_BUFFER_SIZE - 1 \<and> length data \<le> count
      \<and> (\<forall>k<length data. uok k)
    \<longrightarrow> fst (snd (device_read uok count (circ_buffer_write data s))) = data
        \<and> snd (snd (device_read uok count (circ_buffer_write data s))) = int (length data)
        \<and> unread (fst (device_read uok count (circ_buffer_write data s))) = [])
   \<and> length (fst (snd (device_read uok count s))) \<le> min count (length (unread s))
   \<and> snd (snd (device_read uok count s)) \<le> int (min count (length (unread s)))
   \<and> ((\<forall>k<min count (length (unread s)). uok k)
      \<longrightarrow> fst (snd (device_read uok count s)) = take count (unread s)
          \<and> snd (snd (device_read uok count s)) = int (min count (length (unread s)))
          \<and> unread (fst (device_read uok count s)) = drop count (unread s))
   \<and> (tail s = head s \<longrightarrow> device_read uok count s = (s, [], 0))"
proof -
  assume "s = run cs init_driver"
  then have w: "wf s" by (simp add: wf_run)
  have trip: "fst (snd (device_read uok count (circ_buffer_write data s))) = data
        \<and> snd (snd (device_read uok count (circ_buffer_write data s))) = int (length data)
        \<and> unread (fst (device_read uok count (circ_buffer_write data s))) = []"
    if e: "tail s = head s" and l: "length data \<le> CIRC_BUFFER_SIZE - 1"
      and c: "length data \<le> count" and ok: "\<forall>k<length data. uok k"
  proof -
    let ?s = "circ_buffer_write data s"
    from w e have u0: "used s = 0" by (simp add: empty_iff_used)
    then have "unread s = []" and "free s = CIRC_BUFFER_SIZE - 1"
      by (simp_all add: unread_def free_def)
    with l have un: "unread ?s = data"
      by (simp add: write_spec(2) [OF w])
    then have us: "used ?s = length data"
      using length_unread [of ?s] by simp
    have ws: "wf ?s" by (rule write_spec(1) [OF w])
    from c have m: "min count (used ?s) = length data"
      by (simp add: us)
    have r: "device_read uok count ?s
          = (?s\<lparr>tail := (tail ?s + min count (used ?s)) mod CIRC_BUFFER_SIZE\<rparr>,
             take count (unread ?s), int (min count (used ?s)))"
      by (rule device_read_ok [OF ws]) (simp add: m ok)
    have "unread (?s\<lparr>tail := (tail ?s + length data) mod CIRC_BUFFER_SIZE\<rparr>) = drop (length data) (unread ?s)"
      by (rule unread_after_read(1) [OF ws]) (simp add: us)
    with c show ?thesis
      by (simp add: r m un)
  qed
  have b1: "length (fst (snd (device_read uok count s))) \<le> min count (length (unread s))"
    and b2: "snd (snd (device_read uok count s)) \<le> int (min count (length (unread s)))"
    using device_read_bounds [OF w, of uok count] by (simp_all add: length_unread)
  have full: "fst (snd (device_read uok count s)) = take count (unread s)
          \<and> snd (snd (device_read uok count s)) = int (min count (length (unread s)))
          \<and> unread (fst (device_read uok count s)) = drop count (unread s)"
    if ok: "\<forall>k<min count (length (unread s)). uok k"
  proof -
    have r: "device_read uok count s
          = (s\<lparr>tail := (tail s + min count (used s)) mod CIRC_BUFFER_SIZE\<rparr>,
             take count (unread s), int (min count (used s)))"
      by (rule device_read_ok [OF w]) (use ok in \<open>simp add: length_unread\<close>)
    have "unread (s\<lparr>tail := (tail s + min count (used s)) mod CIRC_BUFFER_SIZE\<rparr>)
            = drop (min count (used s)) (unread s)"
      by (rule unread_after_read(1) [OF w]) simp
    moreover have "drop (min count (used s)) (unread s) = drop count (unread s)"
      by (simp add: min_def length_unread)
    ultimately show ?thesis
      by (simp add: r length_unread)
  qed
  have empty: "tail s = head s \<longrightarrow> device_read uok count s = (s, [], 0)"
    using device_read_empty [OF w] by simp
  from trip full have
    t: "tail s = head s \<and> length data \<le> CIRC_BUFFER_SIZE - 1 \<and> length data \<le> count
      \<and> (\<forall>k<length data. uok k)
    \<longrightarrow> fst (snd (device_read uok count (circ_buffer_write data s))) = data
        \<and> snd (snd (device_read uok count (circ_buffer_write data s))) = int (length data)
        \<and> unread (fst (device_read uok count (circ_buffer_write data s))) = []"
    and f: "(\<forall>k<min count (length (unread s)). uok k)
      \<longrightarrow> fst (snd (device_read uok count s)) = take count (unread s)
          \<and> snd (snd (device_read uok count s)) = int (min count (length (unread s)))
          \<and> unread (fst (device_read uok count s)) = drop count (unread s)"
    by blast+
  show ?thesis
    by (intro conjI) (rule t b1 b2 f empty)+
qed

theorem channel_round_trip_witness:
  "init_driver = run [] init_driver
   \<and> tail init_driver = head init_driver \<and> length ''abc'' \<le> CIRC_BUFFER_SIZE - 1
   \<and> length ''abc'' \<le> (5::nat)
   \<and> fst (snd (device_read (\<lambda>k. True) 5 (circ_buffer_write ''abc'' init_driver))) = ''abc''
   \<and> snd (snd (device_read (\<lambda>k. True) 5 (circ_buffer_write ''abc'' init_driver))) = 3
   \<and> device_read (\<lambda>k. True) 5 init_driver = (init_driver, [], 0)"
proof -
  have h: "init_driver = run [] init_driver"
    by (simp add: run_Nil)
  have e: "tail init_driver = head init_driver"
    by (simp add: init_driver_def)
  have p: "tail init_driver = head init_driver \<and> length ''abc'' \<le> CIRC_BUFFER_SIZE - 1
        \<and> length ''abc'' \<le> (5::nat) \<and> (\<forall>k<length ''abc''. (\<lambda>k. True) k)"
    by (simp add: e CIRC_BUFFER_SIZE_def)
  note t = channel_round_trip [OF h, where data = "''abc''" and count = 5 and uok = "\<lambda>k. True"]
  from t p have "fst (snd (device_read (\<lambda>k. True) 5 (circ_buffer_write ''abc'' init_driver))) = ''abc''
        \<and> snd (snd (device_read (\<lambda>k. True) 5 (circ_buffer_write ''abc'' init_driver))) = int (length ''abc'')
        \<and> unread (fst (device_read (\<lambda>k. True) 5 (circ_buffer_write ''abc'' init_driver))) = []"
    by blast
  moreover from t e have "device_read (\<lambda>k. True) 5 init_driver = (init_driver, [], 0)"
    by blast
  ultimately show ?thesis
    using h p by simp
qed

lemma unread_after_battery_90:
  "unread (run [RawEvent [0x20, 0x5A]] init_driver) = ''Battery: 90\<newline>''"
proof -
  have e: "spec_battery_entry 0x5A = ''Battery: 90\<newline>''"
    by code_simp
  show ?thesis
    using wf_init
    by (simp add: run_def raw_event_battery write_spec(2) unread_init free_init_value e)
qed

text \<open>
  Claim C10. A read is not atomic when a copy to the user's buffer fails. Take any state
  the driver can reach and let the copy at offset \<open>j\<close> be the first that fails, with
  \<open>j\<close> below both the count and the number of unread bytes. Then the read returns
  \<open>-EFAULT\<close>; the \<open>j\<close> bytes before it have been stored in the user's buffer and
  are gone from the channel, as the read cursor has moved past them; the byte whose copy
  failed is still there, first in line, and a later read into a writable buffer starts
  with it.
\<close>

theorem device_read_fault_consumes_copied_bytes:
  "s = run cs init_driver \<Longrightarrow> j < count \<Longrightarrow> j < length (unread s) \<Longrightarrow>
   \<forall>k<j. uok k \<Longrightarrow> \<not> uok j \<Longrightarrow>
   snd (snd (device_read uok count s)) = - EFAULT
   \<and> fst (snd (device_read uok count s)) = take j (unread s)
   \<and> unread (fst (device_read uok count s)) = drop j (unread s)
   \<and> hd (unread (fst (device_read uok count s))) = unread s ! j
   \<and> fst (snd (device_read (\<lambda>k. True) count' (fst (device_read uok count s))))
       = take count' (drop j (unread s))"
proof -
  assume s: "s = run cs init_driver" and jc: "j < count" and ju: "j < length (unread s)"
    and ok: "\<forall>k<j. uok k" and bad: "\<not> uok j"
  from s have w: "wf s" by (simp add: wf_run)
  let ?s = "s\<lparr>tail := (tail s + j) mod CIRC_BUFFER_SIZE\<rparr>"
  from ju have ju': "j < used s" by (simp add: length_unread)
  have r: "device_read uok count s = (?s, take j (unread s), - EFAULT)"
    by (rule device_read_fault [OF w jc ju' ok bad])
  from ju' have "j \<le> used s" by simp
  note adv = unread_after_read [OF w this]
  have later: "device_read (\<lambda>k. True) count' ?s
          = (?s\<lparr>tail := (tail ?s + min count' (used ?s)) mod CIRC_BUFFER_SIZE\<rparr>,
             take count' (unread ?s), int (min count' (used ?s)))"
    by (rule device_read_ok [OF adv(2)]) simp
  from ju have "hd (drop j (unread s)) = unread s ! j"
    by (simp add: hd_drop_conv_nth)
  with r adv(1) later show ?thesis
    by simp
qed

theorem device_read_fault_consumes_copied_bytes_witness:
  "run [RawEvent [0x20, 0x5A]] init_driver = run [RawEvent [0x20, 0x5A]] init_driver
   \<and> (3::nat) < 12 \<and> 3 < length (unread (run [RawEvent [0x20, 0x5A]] init_driver))
   \<and> \<not> (\<lambda>k. k < (3::nat)) 3
   \<and> snd (snd (device_read (\<lambda>k. k < 3) 12 (run [RawEvent [0x20, 0x5A]] init_driver))) = - 14
   \<and> fst (snd (device_read (\<lambda>k. k < 3) 12 (run [RawEvent [0x20, 0x5A]] init_driver))) = ''Bat''
   \<and> unread (fst (device_read (\<lambda>k. k < 3) 12 (run [RawEvent [0x20, 0x5A]] init_driver)))
       = ''tery: 90\<newline>''"
proof -
  let ?s = "run [RawEvent [0x20, 0x5A]] init_driver"
  have h1: "?s = ?s" by simp
  have h2: "(3::nat) < 12" by simp
  have h3: "3 < length (unread ?s)" by (simp add: unread_after_battery_90)
  have h4: "\<forall>k<3. (\<lambda>k. k < (3::nat)) k" by simp
  have h5: "\<not> (\<lambda>k. k < (3::nat)) 3" by simp
  from device_read_fault_consumes_copied_bytes [OF h1 h2 h3 h4 h5]
  show ?thesis
    using h3 by (simp add: unread_after_battery_90 EFAULT_def)
qed

section \<open>The status request\<close>

lemma raw_event_hid_dev: "wii_hid_dev (fst (wii_raw_event data s)) = wii_hid_dev s"
proof -
  consider "2 \<le> length data \<and> data ! 0 = 0x20" | "length data = 1 \<and> data ! 0 = 0x20"
    | "length data < 3 \<and> (data = [] \<or> data ! 0 \<noteq> 0x20)" | "3 \<le> length data \<and> data ! 0 \<noteq> 0x20"
    using raw_event_classes [of data] by blast
  then show ?thesis
  proof cases
    case 1
    then show ?thesis by (simp add: raw_event_battery write_fields printk_def)
  next
    case 2
    then have "data = [0x20]" by (cases data) auto
    then show ?thesis by (simp add: raw_event_lone_status printk_def)
  next
    case 3
    then show ?thesis by (simp add: raw_event_short printk_def)
  next
    case 4
    then show ?thesis by (simp add: raw_event_buttons write_fields printk_def)
  qed
qed

lemma device_read_hid_dev:
  "wf s \<Longrightarrow> wii_hid_dev (fst (device_read uok count s)) = wii_hid_dev s"
  using device_read_cases [of s count uok] by auto

lemma device_ioctl_hid_dev: "wii_hid_dev (fst (device_ioctl cmd hw_ret s)) = wii_hid_dev s"
  by (simp add: device_ioctl_def printk_def Let_def split: option.splits)

lemma step_hid_dev:
  "wf s \<Longrightarrow>
   wii_hid_dev (step c s)
     = (if is_attach c then (case c of Probe hdev p st \<Rightarrow> Some hdev | _ \<Rightarrow> None)
        else if is_detach c then None else wii_hid_dev s)"
  by (cases c)
    (simp_all add: wii_probe_def wii_remove_def printk_def raw_event_hid_dev device_read_hid_dev
      device_ioctl_hid_dev)

lemma detached_snoc:
  "detached (cs @ [c]) = (if is_attach c then False else if is_detach c then True else detached cs)"
proof -
  have ad: "\<not> (is_attach c \<and> is_detach c)"
    by (cases c) simp_all
  show ?thesis
  proof (cases "is_attach c \<or> is_detach c")
    case True
    then obtain t ts where "filter (\<lambda>c. is_attach c \<or> is_detach c) cs @ [c] = t # ts"
      by (cases "filter (\<lambda>c. is_attach c \<or> is_detach c) cs") auto
    moreover from this have "last (t # ts) = c"
      by (metis last_snoc)
    ultimately show ?thesis
      using True ad by (auto simp: detached_def)
  next
    case False
    then show ?thesis by (simp add: detached_def)
  qed
qed

lemma hid_dev_detached: "(wii_hid_dev (run cs init_driver) = None) = detached cs"
proof (induction cs rule: rev_induct)
  case Nil
  show ?case by (simp add: run_def init_driver_def detached_def)
next
  case (snoc c cs)
  have "wii_hid_dev (run (cs @ [c]) init_driver)
          = (if is_attach c then (case c of Probe hdev p st \<Rightarrow> Some hdev | _ \<Rightarrow> None)
             else if is_detach c then None else wii_hid_dev (run cs init_driver))"
    unfolding run_snoc by (rule step_hid_dev [OF wf_run])
  with snoc show ?case
    by (cases c) (simp_all add: detached_snoc)
qed

text \<open>
  Claim C6. Take the state after any history of calls. The status request ioctl returns
  \<open>-ENODEV\<close> and sends nothing exactly when no device handle is retained, and no
  handle is retained exactly when the history is detached: no probe has succeeded, or
  the last of the successful probes and removes is a remove. (A probe that fails returns
  its error before anything is retained and is no attach.) With a handle retained, the
  ioctl hands the two bytes \<open>0x15, 0x00\<close> as output report \<open>0x15\<close> to the transport
  and returns what the transport returns. In both cases it comes back at once: apart
  from the log and the outbound request the state is as before, so the channel and the
  cached battery level are untouched and no reply is consumed.
\<close>

theorem request_status_nodev_iff_detached:
  "s = run cs init_driver \<Longrightarrow>
   ((snd (device_ioctl WIIMOTE_IOCTL_REQUEST_STATUS hw_ret s) = - ENODEV
       \<and> hid_out (fst (device_ioctl WIIMOTE_IOCTL_REQUEST_STATUS hw_ret s)) = hid_out s)
      = (wii_hid_dev s = None))
   \<and> (wii_hid_dev s = None) = detached cs
   \<and> (wii_hid_dev s = Some hdev \<longrightarrow>
        hid_out (fst (device_ioctl WIIMOTE_IOCTL_REQUEST_STATUS hw_ret s))
          = hid_out s @ [\<lparr>req_dev = hdev, req_reportnum = 0x15, req_buf = [0x15, 0x00],
                           req_rtype = HID_OUTPUT_REPORT, req_reqtype = HID_REQ_SET_REPORT\<rparr>]
        \<and> snd (device_ioctl WIIMOTE_IOCTL_REQUEST_STATUS hw_ret s) = hw_ret)
   \<and> (fst (device_ioctl WIIMOTE_IOCTL_REQUEST_STATUS hw_ret s))
         \<lparr>klog := klog s, hid_out := hid_out s\<rparr> = s"
proof -
  assume s: "s = run cs init_driver"
  have a: "(snd (device_ioctl WIIMOTE_IOCTL_REQUEST_STATUS hw_ret s) = - ENODEV
       \<and> hid_out (fst (device_ioctl WIIMOTE_IOCTL_REQUEST_STATUS hw_ret s)) = hid_out s)
      = (wii_hid_dev s = None)"
    by (cases "wii_hid_dev s") (simp_all add: device_ioctl_def printk_def Let_def)
  have b: "(wii_hid_dev s = None) = detached cs"
    unfolding s by (rule hid_dev_detached)
  have c: "wii_hid_dev s = Some hdev \<longrightarrow>
        hid_out (fst (device_ioctl WIIMOTE_IOCTL_REQUEST_STATUS hw_ret s))
          = hid_out s @ [\<lparr>req_dev = hdev, req_reportnum = 0x15, req_buf = [0x15, 0x00],
                           req_rtype = HID_OUTPUT_REPORT, req_reqtype = HID_REQ_SET_REPORT\<rparr>]
        \<and> snd (device_ioctl WIIMOTE_IOCTL_REQUEST_STATUS hw_ret s) = hw_ret"
    by (simp add: device_ioctl_def printk_def Let_def status_request_def)
  have d: "(fst (device_ioctl WIIMOTE_IOCTL_REQUEST_STATUS hw_ret s))
         \<lparr>klog := klog s, hid_out := hid_out s\<rparr> = s"
    by (cases "wii_hid_dev s") (simp_all add: device_ioctl_def printk_def Let_def)
  show ?thesis
    by (intro conjI) (rule a b c d)+
qed

theorem request_status_nodev_iff_detached_witness:
  "run [Probe 7 0 0, RawEvent [0x20, 0x5A]] init_driver = run [Probe 7 0 0, RawEvent [0x20, 0x5A]] init_driver
   \<and> wii_hid_dev (run [Probe 7 0 0, RawEvent [0x20, 0x5A]] init_driver) = Some 7
   \<and> \<not> detached [Probe 7 0 0, RawEvent [0x20, 0x5A]]
   \<and> snd (device_ioctl WIIMOTE_IOCTL_REQUEST_STATUS 2 (run [Probe 7 0 0, RawEvent [0x20, 0x5A]] init_driver)) = 2
   \<and> hid_out (fst (device_ioctl WIIMOTE_IOCTL_REQUEST_STATUS 2 (run [Probe 7 0 0, RawEvent [0x20, 0x5A]] init_driver)))
       = [\<lparr>req_dev = 7, req_reportnum = 0x15, req_buf = [0x15, 0x00],
            req_rtype = HID_OUTPUT_REPORT, req_reqtype = HID_REQ_SET_REPORT\<rparr>]"
proof -
  let ?cs = "[Probe 7 0 0, RawEvent [0x20, 0x5A]]"
  have h: "run ?cs init_driver = run ?cs init_driver" by simp
  have dev: "wii_hid_dev (run ?cs init_driver) = Some 7"
    by (simp add: run_def raw_event_hid_dev wii_probe_def printk_def)
  have out: "hid_out (run ?cs init_driver) = []"
    by (simp add: run_def raw_event_battery write_fields wii_probe_def printk_def init_driver_def)
  have det: "\<not> detached ?cs"
    by (simp add: detached_def)
  from request_status_nodev_iff_detached [OF h, of 2 7] dev out det
  show ?thesis by simp
qed

end
